theory Spec2Isabelle
  imports Main "HOL-Library.AList" "HOL-Library.Sublist" "HOL-Library.Multiset"
    "HOL-Library.Product_Lexorder"
begin

section \<open>Python values and built-ins used by memory.py\<close>

text \<open>
  A string is a \<^typ>\<open>string\<close> whose characters are the code points 0 to 255, and the
  string methods below are Python's on that range. The whitespace of \<open>strip\<close> and
  \<open>split\<close> is that of \<open>str.isspace\<close>: code points 9 to 13, 28 to 32, 133 (next line)
  and 160 (no-break space). \<open>lower\<close> maps \<open>A\<close>..\<open>Z\<close> and the capital letters 192 to 222,
  the multiplication sign 215 excepted, to the letter 32 places further on, and leaves every
  other character alone.
\<close>

definition NL :: string where
  "NL = [CHR 0x0A]"

definition is_space :: "char \<Rightarrow> bool" where
  "is_space c = (c = CHR 0x20 \<or> c = CHR 0x09 \<or> c = CHR 0x0A \<or> c = CHR 0x0B \<or> c = CHR 0x0C
     \<or> c = CHR 0x0D \<or> c = CHR 0x1C \<or> c = CHR 0x1D \<or> c = CHR 0x1E \<or> c = CHR 0x1F
     \<or> c = CHR 0x85 \<or> c = CHR 0xA0)"

definition upper_letters :: string where
  "upper_letters = ''ABCDEFGHIJKLMNOPQRSTUVWXYZ'' @
       [CHR 0xC0, CHR 0xC1, CHR 0xC2, CHR 0xC3, CHR 0xC4, CHR 0xC5, CHR 0xC6, CHR 0xC7,
        CHR 0xC8, CHR 0xC9, CHR 0xCA, CHR 0xCB, CHR 0xCC, CHR 0xCD, CHR 0xCE, CHR 0xCF,
        CHR 0xD0, CHR 0xD1, CHR 0xD2, CHR 0xD3, CHR 0xD4, CHR 0xD5, CHR 0xD6, CHR 0xD8,
        CHR 0xD9, CHR 0xDA, CHR 0xDB, CHR 0xDC, CHR 0xDD, CHR 0xDE]"

definition lower_letters :: string where
  "lower_letters = ''abcdefghijklmnopqrstuvwxyz'' @
       [CHR 0xE0, CHR 0xE1, CHR 0xE2, CHR 0xE3, CHR 0xE4, CHR 0xE5, CHR 0xE6, CHR 0xE7,
        CHR 0xE8, CHR 0xE9, CHR 0xEA, CHR 0xEB, CHR 0xEC, CHR 0xED, CHR 0xEE, CHR 0xEF,
        CHR 0xF0, CHR 0xF1, CHR 0xF2, CHR 0xF3, CHR 0xF4, CHR 0xF5, CHR 0xF6, CHR 0xF8,
        CHR 0xF9, CHR 0xFA, CHR 0xFB, CHR 0xFC, CHR 0xFD, CHR 0xFE]"

definition lower_char :: "char \<Rightarrow> char" where
  "lower_char c = (case map_of (zip upper_letters lower_letters) c of Some d \<Rightarrow> d | None \<Rightarrow> c)"

text \<open>\<open>s.lower()\<close>\<close>
definition lower :: "string \<Rightarrow> string" where
  "lower s = map lower_char s"

text \<open>\<open>s.strip()\<close>\<close>
definition strip :: "string \<Rightarrow> string" where
  "strip s = rev (dropWhile is_space (rev (dropWhile is_space s)))"

text \<open>\<open>s.split()\<close>: the maximal runs of non-whitespace characters, in order.\<close>
fun split_acc :: "string \<Rightarrow> string \<Rightarrow> string list" where
  "split_acc w [] = (if w = [] then [] else [w])"
| "split_acc w (c # cs) =
     (if is_space c then (if w = [] then split_acc [] cs else w # split_acc [] cs)
      else split_acc (w @ [c]) cs)"

definition split_ws :: "string \<Rightarrow> string list" where
  "split_ws s = split_acc [] s"

text \<open>\<open>w in t\<close> for two strings: \<open>w\<close> occurs in \<open>t\<close> as a contiguous block.\<close>
fun substr :: "string \<Rightarrow> string \<Rightarrow> bool" where
  "substr w [] = (w = [])"
| "substr w (c # cs) = (prefix w (c # cs) \<or> substr w cs)"

text \<open>\<open>sep.join(xs)\<close>\<close>
fun join :: "string \<Rightarrow> string list \<Rightarrow> string" where
  "join sep [] = []"
| "join sep [x] = x"
| "join sep (x # y # ys) = x @ sep @ join sep (y # ys)"

text \<open>
  Python slices \<open>xs[i:]\<close> and \<open>xs[:k]\<close>: a negative bound counts from the end, and every
  bound is clipped to the list.
\<close>
definition slice_from :: "int \<Rightarrow> 'a list \<Rightarrow> 'a list" where
  "slice_from i xs = (if i < 0 then drop (length xs - nat (- i)) xs else drop (nat i) xs)"

definition slice_to :: "int \<Rightarrow> 'a list \<Rightarrow> 'a list" where
  "slice_to k xs = (if k < 0 then take (length xs - nat (- k)) xs else take (nat k) xs)"

text \<open>
  A float is kept as its exact value \<open>m * 2 ^ e\<close>, or one of the three special values that
  \<open>json.loads\<close> accepts.
\<close>
datatype pyfloat = Finite int int | PosInf | NegInf | NaN

text \<open>What \<open>json.loads\<close> returns; a dict keeps its items in insertion order.\<close>
datatype json =
    JNull
  | JBool bool
  | JInt int
  | JFloat pyfloat
  | JStr string
  | JList "json list"
  | JDict "(string \<times> json) list"

type_synonym rec = "(string \<times> json) list"

datatype py_error = AttributeError | KeyError | IndexError

text \<open>
  The parts of the Python runtime and of the optional embedding back end that the module
  calls and that are not written out here: \<open>int(s)\<close> on a string (\<open>None\<close> when it raises
  \<open>ValueError\<close>), \<open>str(v)\<close> on a value that is not a string, and the nearest-neighbour
  search of the semantic index over its corpus.
\<close>
record runtime =
  int_of_str :: "string \<Rightarrow> int option"
  str_of :: "json \<Rightarrow> string"
  rag_search :: "string list \<Rightarrow> string \<Rightarrow> int \<Rightarrow> string list"

text \<open>\<open>int(f)\<close> on a float truncates towards zero and raises on infinities and NaN.\<close>
fun int_of_float :: "pyfloat \<Rightarrow> int option" where
  "int_of_float (Finite m e) =
     Some (if 0 \<le> e then m * 2 ^ nat e
           else if 0 \<le> m then m div 2 ^ nat (- e)
           else - ((- m) div 2 ^ nat (- e)))"
| "int_of_float PosInf = None"
| "int_of_float NegInf = None"
| "int_of_float NaN = None"

text \<open>\<open>int(x)\<close>; \<open>None\<close> stands for any exception it raises.\<close>
fun py_int :: "runtime \<Rightarrow> json \<Rightarrow> int option" where
  "py_int rt JNull = None"
| "py_int rt (JBool b) = Some (if b then 1 else 0)"
| "py_int rt (JInt i) = Some i"
| "py_int rt (JFloat f) = int_of_float f"
| "py_int rt (JStr s) = int_of_str rt s"
| "py_int rt (JList xs) = None"
| "py_int rt (JDict kvs) = None"

text \<open>\<open>isinstance(v, int)\<close>: \<open>bool\<close> is a subclass of \<open>int\<close>.\<close>
fun isinstance_int :: "json \<Rightarrow> bool" where
  "isinstance_int (JInt i) = True"
| "isinstance_int (JBool b) = True"
| "isinstance_int v = False"

fun isinstance_str :: "json \<Rightarrow> bool" where
  "isinstance_str (JStr s) = True"
| "isinstance_str v = False"

text \<open>Truth value of a JSON value, as \<open>or\<close> and \<open>if\<close> test it.\<close>
fun truthy :: "json \<Rightarrow> bool" where
  "truthy JNull = False"
| "truthy (JBool b) = b"
| "truthy (JInt i) = (i \<noteq> 0)"
| "truthy (JFloat (Finite m e)) = (m \<noteq> 0)"
| "truthy (JFloat f) = True"
| "truthy (JStr s) = (s \<noteq> [])"
| "truthy (JList xs) = (xs \<noteq> [])"
| "truthy (JDict kvs) = (kvs \<noteq> [])"

text \<open>\<open>r.get(k)\<close> is \<^term>\<open>map_of r k\<close>; \<open>r.get(k, d)\<close>:\<close>
definition get_default :: "rec \<Rightarrow> string \<Rightarrow> json \<Rightarrow> json" where
  "get_default r k d = (case map_of r k of Some v \<Rightarrow> v | None \<Rightarrow> d)"

text \<open>
  \<open>(rec.get("note") or "")\<close> followed by a string method: a missing or falsy note gives the
  empty string, a string gives itself, and any other truthy value has no such method.
\<close>
definition note_or_empty :: "rec \<Rightarrow> py_error + string" where
  "note_or_empty r =
     (case map_of r ''note'' of
        None \<Rightarrow> Inr []
      | Some v \<Rightarrow>
          if \<not> truthy v then Inr []
          else (case v of JStr s \<Rightarrow> Inr s | _ \<Rightarrow> Inl AttributeError))"

section \<open>The priority scorer\<close>

definition KEY_TAGS :: "(string \<times> string list) list" where
  "KEY_TAGS =
     [(''quest'', [''quest'', ''mission'', ''task'', ''contract'']),
      (''item'', [''sword'', ''key'', ''map'', ''feather'', ''ring'', ''amulet'', ''potion'',
                  ''lantern'', ''gem'', ''scroll'']),
      (''ally'', [''joins you'', ''agrees to help'', ''companion'', ''party member'', ''ally'']),
      (''lore'', [''prophecy'', ''legend'', ''ancient'', ''ritual'', ''temple'', ''kingdom'',
                  ''order''])]"

text \<open>\<open>MemoryManager._priority\<close>\<close>
definition priority :: "string \<Rightarrow> int" where
  "priority text =
     (let t = lower text;
          score = fold (\<lambda>(tag, words) score.
                    if list_ex (\<lambda>w. substr w t) words then score + 2 else score) KEY_TAGS 1;
          score = (if substr ''remember:'' t then score + 3 else score)
      in min score 5)"

text \<open>
  The scorer as the specification words it: a category counts when one of its keywords
  occurs somewhere inside the lowercased text.
\<close>
definition occurs_in :: "string \<Rightarrow> string \<Rightarrow> bool" where
  "occurs_in w t = (\<exists>p s. t = p @ w @ s)"

definition category_hit :: "string list \<Rightarrow> string \<Rightarrow> bool" where
  "category_hit words t = (\<exists>w. w \<in> set words \<and> occurs_in w t)"

definition quest_words :: "string list" where
  "quest_words = [''quest'', ''mission'', ''task'', ''contract'']"

definition item_words :: "string list" where
  "item_words = [''sword'', ''key'', ''map'', ''feather'', ''ring'', ''amulet'', ''potion'',
     ''lantern'', ''gem'', ''scroll'']"

definition ally_words :: "string list" where
  "ally_words = [''joins you'', ''agrees to help'', ''companion'', ''party member'', ''ally'']"

definition lore_words :: "string list" where
  "lore_words = [''prophecy'', ''legend'', ''ancient'', ''ritual'', ''temple'', ''kingdom'',
     ''order'']"

definition score_spec :: "string \<Rightarrow> int" where
  "score_spec text =
     (let t = lower text in
      min 5 (1 + 2 * of_bool (category_hit quest_words t)
               + 2 * of_bool (category_hit item_words t)
               + 2 * of_bool (category_hit ally_words t)
               + 2 * of_bool (category_hit lore_words t)
               + 3 * of_bool (occurs_in ''remember:'' t)))"

section \<open>Record normalisation\<close>

text \<open>
  The body of the loop of \<open>_normalize_records\<close> for one record \<open>r\<close>, as its three
  blocks (priority, turn, note), each taking and returning the record and the \<open>changed\<close>
  flag; \<open>r[k] = v\<close> is \<^term>\<open>AList.update k v r\<close> (an existing key keeps its place, a new
  one goes last).
\<close>
definition fix_priority :: "runtime \<Rightarrow> rec \<times> bool \<Rightarrow> rec \<times> bool" where
  "fix_priority rt = (\<lambda>(r, changed).
     if \<not> (case map_of r ''priority'' of Some v \<Rightarrow> isinstance_int v | None \<Rightarrow> False)
     then (AList.update ''priority''
             (case py_int rt (get_default r ''priority'' (JInt 1)) of
                Some i \<Rightarrow> JInt i
              | None \<Rightarrow> JInt 1) r, True)
     else (r, changed))"

definition fix_turn :: "runtime \<Rightarrow> rec \<times> bool \<Rightarrow> rec \<times> bool" where
  "fix_turn rt = (\<lambda>(r, changed).
     if \<not> (case map_of r ''turn'' of Some v \<Rightarrow> isinstance_int v | None \<Rightarrow> False)
     then (AList.update ''turn''
             (case py_int rt (get_default r ''turn'' (JInt 0)) of
                Some i \<Rightarrow> JInt i
              | None \<Rightarrow> JInt 0) r, True)
     else (r, changed))"

definition fix_note :: "runtime \<Rightarrow> rec \<times> bool \<Rightarrow> rec \<times> bool" where
  "fix_note rt = (\<lambda>(r, changed).
     case map_of r ''note'' of
       Some n \<Rightarrow>
         if n \<noteq> JNull \<and> \<not> isinstance_str n
         then (AList.update ''note'' (JStr (str_of rt n)) r, True)
         else (r, changed)
     | None \<Rightarrow> (r, changed))"

definition normalize_step :: "runtime \<Rightarrow> rec \<Rightarrow> bool \<Rightarrow> rec \<times> bool" where
  "normalize_step rt r changed = fix_note rt (fix_turn rt (fix_priority rt (r, changed)))"

fun normalize_loop :: "runtime \<Rightarrow> rec list \<Rightarrow> bool \<Rightarrow> rec list \<times> bool" where
  "normalize_loop rt [] changed = ([], changed)"
| "normalize_loop rt (r # rs) changed =
     (let (r', changed') = normalize_step rt r changed;
          (rs', changed'') = normalize_loop rt rs changed'
      in (r' # rs', changed''))"

text \<open>
  \<open>_normalize_records\<close>, with the contents of the long-term file passed in and returned:
  the file is written only when the loop changed something.
\<close>
definition normalize_records ::
  "runtime \<Rightarrow> rec list \<Rightarrow> rec list option \<Rightarrow> rec list \<times> rec list option" where
  "normalize_records rt recs file =
     (let (recs', changed) = normalize_loop rt recs False
      in (recs', if changed then Some recs' else file))"

section \<open>The memory manager\<close>

record turn =
  user :: string
  dm :: string

text \<open>
  The fields of \<open>MemoryManager\<close> that the operations below touch, together with what the
  two JSON files hold (\<open>None\<close>: not written yet).
\<close>
record memory_manager =
  short_window :: int
  use_semantic_rag :: bool
  turns :: "turn list"
  long_memory :: "rec list"
  hints :: "string list"
  corpus :: "string list"
  ltm_file :: "rec list option"
  hints_file :: "string list option"

text \<open>The \<open>lines\<close> list built by \<open>get_short_context\<close>.\<close>
definition context_lines :: "memory_manager \<Rightarrow> string list" where
  "context_lines s =
     concat (map (\<lambda>t. [''Player: '' @ user t, ''DM: '' @ dm t])
       (slice_from (- short_window s) (turns s)))"

definition get_short_context :: "memory_manager \<Rightarrow> string" where
  "get_short_context s = join NL (context_lines s)"

definition add_turn :: "string \<Rightarrow> string \<Rightarrow> memory_manager \<Rightarrow> memory_manager" where
  "add_turn u d s = s\<lparr>turns := turns s @ [\<lparr>user = u, dm = d\<rparr>]\<rparr>"

definition add_consistency_hint :: "string \<Rightarrow> memory_manager \<Rightarrow> memory_manager" where
  "add_consistency_hint hint s =
     (if hint \<noteq> [] \<and> hint \<notin> set (hints s)
      then s\<lparr>hints := hints s @ [hint], hints_file := Some (hints s @ [hint])\<rparr>
      else s)"

definition pop_consistency_hints :: "memory_manager \<Rightarrow> string \<times> memory_manager" where
  "pop_consistency_hints s =
     (if hints s = [] then ([], s)
      else
        (let hs = slice_to 2 (hints s);
             rest = slice_from 2 (hints s)
         in (''Consistency hints:'' @ NL @ join NL (map (\<lambda>h. ''- '' @ h) hs),
             s\<lparr>hints := rest, hints_file := Some rest\<rparr>)))"

text \<open>
  \<open>_rag_add_text\<close>: the embedder and the index exist whenever semantic mode is on, so only
  the emptiness test is left; the vector added to the index is not modelled.
\<close>
definition rag_add_text :: "string \<Rightarrow> memory_manager \<Rightarrow> memory_manager" where
  "rag_add_text text s = (if text = [] then s else s\<lparr>corpus := corpus s @ [text]\<rparr>)"

definition pinned_record :: "string \<Rightarrow> rec" where
  "pinned_record note =
     [(''note'', JStr note), (''tags'', JList [JStr ''HIGH'']), (''priority'', JInt 5),
      (''turn'', JInt (- 1))]"

definition pin_note :: "string \<Rightarrow> memory_manager \<Rightarrow> memory_manager" where
  "pin_note note s =
     (let s = s\<lparr>long_memory := long_memory s @ [pinned_record note]\<rparr>;
          s = (if use_semantic_rag s then rag_add_text note s else s)
      in s\<lparr>ltm_file := Some (long_memory s)\<rparr>)"

text \<open>
  The \<open>remember:\<close> branch of the input handler in app.py: its guard, and its body, which
  takes what follows the first colon (\<open>text.split(":", 1)[1]\<close>).
\<close>
datatype feedback = Success string | Warning string

definition is_remember :: "string \<Rightarrow> bool" where
  "is_remember text = prefix ''remember:'' (lower text)"

definition remember_command ::
  "string \<Rightarrow> memory_manager \<Rightarrow> py_error + (feedback \<times> memory_manager)" where
  "remember_command text s =
     (case dropWhile (\<lambda>c. c \<noteq> CHR '':'') text of
        [] \<Rightarrow> Inl IndexError
      | colon # rest \<Rightarrow>
          (let note = strip rest
           in if note \<noteq> [] then Inr (Success (''Pinned: '' @ note), pin_note note s)
              else Inr (Warning ''Usage: remember: <note>'', s)))"

section \<open>Compaction\<close>

text \<open>
  The loop of \<open>compact_long_memory\<close> over the reversed store, with the set \<open>seen\<close> and the
  list \<open>compact\<close> as accumulators; the test that ends the loop comes after the append.
\<close>
fun compact_loop :: "int \<Rightarrow> rec list \<Rightarrow> string set \<Rightarrow> rec list \<Rightarrow> py_error + rec list" where
  "compact_loop max_notes [] seen compact = Inr compact"
| "compact_loop max_notes (r # rest) seen compact =
     (case note_or_empty r of
        Inl e \<Rightarrow> Inl e
      | Inr txt \<Rightarrow>
          (let note = lower (strip txt);
               keep = (note \<noteq> [] \<and> note \<notin> seen);
               seen = (if keep then insert note seen else seen);
               compact = (if keep then compact @ [r] else compact)
           in if max_notes \<le> int (length compact) then Inr compact
              else compact_loop max_notes rest seen compact))"

definition compact_long_memory :: "int \<Rightarrow> memory_manager \<Rightarrow> py_error + memory_manager" where
  "compact_long_memory max_notes s =
     (if long_memory s = [] then Inr s
      else
        (case compact_loop max_notes (rev (long_memory s)) {} [] of
           Inl e \<Rightarrow> Inl e
         | Inr compact \<Rightarrow>
             Inr (s\<lparr>long_memory := rev compact, ltm_file := Some (rev compact)\<rparr>)))"

section \<open>Lightweight recall\<close>

text \<open>The nested helpers \<open>to_int\<close> and \<open>score\<close> of \<open>recall_relevant\<close>.\<close>
definition to_int :: "runtime \<Rightarrow> json \<Rightarrow> int \<Rightarrow> int" where
  "to_int rt x dflt = (case py_int rt x of Some i \<Rightarrow> i | None \<Rightarrow> dflt)"

definition score :: "runtime \<Rightarrow> string \<Rightarrow> string list \<Rightarrow> rec \<Rightarrow> py_error + (int \<times> int)" where
  "score rt cue_l focus r =
     (let s = to_int rt (get_default r ''priority'' (JInt 1)) 1
      in (case note_or_empty r of
            Inl e \<Rightarrow> Inl e
          | Inr txt \<Rightarrow>
              (let n = lower txt;
                   s = (if list_ex (\<lambda>w. w \<noteq> [] \<and> substr w n) focus then s + 1 else s);
                   s = (if list_ex (\<lambda>w. w \<noteq> [] \<and> substr w n) (split_ws cue_l) then s + 1
                        else s)
               in Inr (s, to_int rt (get_default r ''turn'' (JInt 0)) 0))))"

text \<open>The comprehension that builds \<open>pool\<close>.\<close>
fun pool_filter :: "rec list \<Rightarrow> py_error + rec list" where
  "pool_filter [] = Inr []"
| "pool_filter (r # rs) =
     (case note_or_empty r of
        Inl e \<Rightarrow> Inl e
      | Inr txt \<Rightarrow>
          (case pool_filter rs of
             Inl e \<Rightarrow> Inl e
           | Inr ps \<Rightarrow> Inr (if strip txt \<noteq> [] then r # ps else ps)))"

text \<open>The keys that \<open>sorted\<close> computes, one call of \<open>key\<close> per element, in order.\<close>
fun keys_of :: "(rec \<Rightarrow> py_error + int \<times> int) \<Rightarrow> rec list \<Rightarrow> py_error + (int \<times> int) list" where
  "keys_of key [] = Inr []"
| "keys_of key (r # rs) =
     (case key r of
        Inl e \<Rightarrow> Inl e
      | Inr k \<Rightarrow> (case keys_of key rs of Inl e \<Rightarrow> Inl e | Inr ks \<Rightarrow> Inr (k # ks)))"

text \<open>
  \<open>sorted(pool, key=..., reverse=True)\<close> on computed keys: a stable sort into descending
  key order, pairs compared lexicographically. Sorting the negated keys into ascending order
  with the stable \<^const>\<open>sort_key\<close> is the same thing.
\<close>
definition sorted_reverse :: "(int \<times> int) list \<Rightarrow> rec list \<Rightarrow> rec list" where
  "sorted_reverse keys pool =
     map snd (sort_key (\<lambda>(k, r). (- fst k, - snd k)) (zip keys pool))"

text \<open>The bullet \<open>f"- {r['note']}"\<close>.\<close>
definition bullet :: "runtime \<Rightarrow> rec \<Rightarrow> py_error + string" where
  "bullet rt r =
     (case map_of r ''note'' of
        None \<Rightarrow> Inl KeyError
      | Some v \<Rightarrow> Inr (''- '' @ (case v of JStr s \<Rightarrow> s | _ \<Rightarrow> str_of rt v)))"

fun bullets_of :: "runtime \<Rightarrow> rec list \<Rightarrow> py_error + string list" where
  "bullets_of rt [] = Inr []"
| "bullets_of rt (r # rs) =
     (case bullet rt r of
        Inl e \<Rightarrow> Inl e
      | Inr b \<Rightarrow> (case bullets_of rt rs of Inl e \<Rightarrow> Inl e | Inr bs \<Rightarrow> Inr (b # bs)))"

definition render_notes :: "string list \<Rightarrow> string" where
  "render_notes bullets =
     (if bullets = [] then [] else ''Relevant notes:'' @ NL @ join NL bullets)"

definition recall_relevant ::
  "runtime \<Rightarrow> int \<Rightarrow> string \<Rightarrow> string list option \<Rightarrow> memory_manager \<Rightarrow> py_error + string" where
  "recall_relevant rt k cue npc_focus s =
     (if use_semantic_rag s
      then Inr (render_notes (map (\<lambda>t. ''- '' @ t) (rag_search rt (corpus s) cue k)))
      else
        (let cue_l = lower cue;
             focus = map lower (case npc_focus of None \<Rightarrow> [] | Some ws \<Rightarrow> ws)
         in (case pool_filter (slice_from (- 200) (long_memory s)) of
               Inl e \<Rightarrow> Inl e
             | Inr pool \<Rightarrow>
                 (case keys_of (score rt cue_l focus) pool of
                    Inl e \<Rightarrow> Inl e
                  | Inr keys \<Rightarrow>
                      (case bullets_of rt (slice_to k (sorted_reverse keys pool)) of
                         Inl e \<Rightarrow> Inl e
                       | Inr bullets \<Rightarrow> Inr (render_notes bullets))))))"

section \<open>Properties of records and states\<close>

text \<open>A field holds a Python \<open>int\<close>; the note is a string, \<open>None\<close> or absent.\<close>
definition int_field :: "rec \<Rightarrow> string \<Rightarrow> bool" where
  "int_field r k = (case map_of r k of Some v \<Rightarrow> isinstance_int v | None \<Rightarrow> False)"

definition note_ok :: "rec \<Rightarrow> bool" where
  "note_ok r =
     (case map_of r ''note'' of Some v \<Rightarrow> v = JNull \<or> isinstance_str v | None \<Rightarrow> True)"

definition note_is_str :: "rec \<Rightarrow> bool" where
  "note_is_str r = (case map_of r ''note'' of Some v \<Rightarrow> isinstance_str v | None \<Rightarrow> False)"

definition normalized :: "rec \<Rightarrow> bool" where
  "normalized r = (int_field r ''priority'' \<and> int_field r ''turn'' \<and> note_ok r)"

text \<open>
  The value a numeric field ends with: itself when it already is an \<open>int\<close>, else \<open>int\<close> of
  it, else the default. The value a note ends with: a string in place of any value that is
  neither a string nor \<open>None\<close>.
\<close>
definition coerced_int :: "runtime \<Rightarrow> int \<Rightarrow> json option \<Rightarrow> json" where
  "coerced_int rt dflt field =
     (case field of
        None \<Rightarrow> JInt dflt
      | Some v \<Rightarrow>
          if isinstance_int v then v
          else (case py_int rt v of Some i \<Rightarrow> JInt i | None \<Rightarrow> JInt dflt))"

definition coerced_note :: "runtime \<Rightarrow> json option \<Rightarrow> json option" where
  "coerced_note rt field =
     (case field of
        None \<Rightarrow> None
      | Some v \<Rightarrow> if v = JNull \<or> isinstance_str v then Some v else Some (JStr (str_of rt v)))"

definition normal_form_of :: "runtime \<Rightarrow> rec \<Rightarrow> rec \<Rightarrow> bool" where
  "normal_form_of rt r r' =
     (map_of r' ''priority'' = Some (coerced_int rt 1 (map_of r ''priority''))
      \<and> map_of r' ''turn'' = Some (coerced_int rt 0 (map_of r ''turn''))
      \<and> map_of r' ''note'' = coerced_note rt (map_of r ''note'')
      \<and> (\<forall>k. k \<notin> {''priority'', ''turn'', ''note''} \<longrightarrow> map_of r' k = map_of r k))"

text \<open>
  A runtime for the worked examples. It agrees with Python on the values the examples use:
  \<open>int("3")\<close> is 3, \<open>int\<close> of the other strings used raises, \<open>str(7)\<close> is \<open>"7"\<close>.
\<close>
definition example_runtime :: runtime where
  "example_runtime =
     \<lparr>int_of_str = (\<lambda>s. if s = ''3'' then Some 3 else None),
      str_of = (\<lambda>v. if v = JInt 7 then ''7'' else ''?''),
      rag_search = (\<lambda>corpus query k. [])\<rparr>"

text \<open>
  The manager as \<open>__init__\<close> leaves it in Lightweight mode when neither JSON file exists.
\<close>
definition new_manager :: "int \<Rightarrow> memory_manager" where
  "new_manager window =
     \<lparr>short_window = window, use_semantic_rag = False, turns = [], long_memory = [],
      hints = [], corpus = [], ltm_file = None, hints_file = None\<rparr>"

text \<open>The two operations on the hint queue, and a run of them.\<close>
datatype hint_op = Add string | Drain

fun apply_hint_op :: "hint_op \<Rightarrow> memory_manager \<Rightarrow> memory_manager" where
  "apply_hint_op (Add h) s = add_consistency_hint h s"
| "apply_hint_op Drain s = snd (pop_consistency_hints s)"

text \<open>
  A record has a blank note when its note is a string of whitespace only (the empty string
  included), or is absent, or is another value that counts as false.
\<close>
definition blank_note :: "rec \<Rightarrow> bool" where
  "blank_note r =
     (case map_of r ''note'' of
        None \<Rightarrow> True
      | Some v \<Rightarrow> (case v of JStr t \<Rightarrow> list_all is_space t | _ \<Rightarrow> \<not> truthy v))"

text \<open>
  The key under which \<open>compact_long_memory\<close> compares notes (trimmed, lowercased), and the
  records that a scan keeps when it keeps the first record of every non-blank key not seen
  before.
\<close>
definition note_key :: "rec \<Rightarrow> string" where
  "note_key r = (case note_or_empty r of Inr txt \<Rightarrow> lower (strip txt) | Inl e \<Rightarrow> [])"

fun dedup_from :: "string set \<Rightarrow> rec list \<Rightarrow> rec list" where
  "dedup_from seen [] = []"
| "dedup_from seen (r # rs) =
     (if note_key r \<noteq> [] \<and> note_key r \<notin> seen
      then r # dedup_from (insert (note_key r) seen) rs
      else dedup_from seen rs)"

text \<open>
  The ranking of Lightweight recall in the specification's words. The note text of a record
  is its note when that is a string. A field is coerced to an integer by \<open>int\<close>, with a
  default when the field is absent or \<open>int\<close> raises. A token of a text is a non-empty block
  of it without whitespace that has whitespace or an end of the text on either side. The key
  of a record is its coerced priority (default 1), plus 1 if a non-empty focus token occurs in
  the note, plus 1 if a token of the cue occurs in the note, both compared in lowercase,
  paired with its coerced turn (default 0). One key may stand before another when its first
  component is higher, or on a tie its turn is higher or equal. The pool is the records among
  the last 200 whose note is not blank.
\<close>
definition note_text :: "rec \<Rightarrow> string" where
  "note_text r = (case map_of r ''note'' of Some (JStr t) \<Rightarrow> t | _ \<Rightarrow> [])"

definition coerced_or :: "runtime \<Rightarrow> int \<Rightarrow> json option \<Rightarrow> int" where
  "coerced_or rt dflt field =
     (case field of
        None \<Rightarrow> dflt
      | Some v \<Rightarrow> (case py_int rt v of Some i \<Rightarrow> i | None \<Rightarrow> dflt))"

definition token_of :: "string \<Rightarrow> string \<Rightarrow> bool" where
  "token_of w s =
     (w \<noteq> [] \<and> \<not> list_ex is_space w
      \<and> (\<exists>p q. s = p @ w @ q \<and> (p = [] \<or> is_space (last p)) \<and> (q = [] \<or> is_space (hd q))))"

definition rank_key :: "runtime \<Rightarrow> string \<Rightarrow> string list \<Rightarrow> rec \<Rightarrow> int \<times> int" where
  "rank_key rt cue focus r =
     (coerced_or rt 1 (map_of r ''priority'')
        + of_bool (\<exists>w. w \<in> set focus \<and> w \<noteq> [] \<and> occurs_in (lower w) (lower (note_text r)))
        + of_bool (\<exists>w. token_of w cue \<and> occurs_in (lower w) (lower (note_text r))),
      coerced_or rt 0 (map_of r ''turn''))"

definition outranks :: "int \<times> int \<Rightarrow> int \<times> int \<Rightarrow> bool" where
  "outranks a b = (fst b < fst a \<or> (fst a = fst b \<and> snd b \<le> snd a))"

definition recall_pool :: "memory_manager \<Rightarrow> rec list" where
  "recall_pool s =
     filter (\<lambda>r. \<not> blank_note r) (drop (length (long_memory s) - 200) (long_memory s))"

text \<open>
  The key with the focus part as the claim words it: any focus token that occurs in the
  note counts, the empty token included.
\<close>
definition stated_key :: "runtime \<Rightarrow> string \<Rightarrow> string list \<Rightarrow> rec \<Rightarrow> int \<times> int" where
  "stated_key rt cue focus r =
     (coerced_or rt 1 (map_of r ''priority'')
        + of_bool (\<exists>w. w \<in> set focus \<and> occurs_in (lower w) (lower (note_text r)))
        + of_bool (\<exists>w. token_of w cue \<and> occurs_in (lower w) (lower (note_text r))),
      coerced_or rt 0 (map_of r ''turn''))"

text \<open>
  Two long-term stores for the worked examples. In the first the priority of the second
  record is the string \<open>"3"\<close>, the third note is blank, and the fifth record has no priority
  and a turn that is not a number.
\<close>
definition example_store :: memory_manager where
  "example_store = (new_manager 5)\<lparr>long_memory :=
     [[(''note'', JStr ''A locked gate''), (''tags'', JList []), (''priority'', JInt 4),
       (''turn'', JInt 1)],
      [(''note'', JStr ''Mira the smith joins you''), (''tags'', JList []),
       (''priority'', JStr ''3''), (''turn'', JInt 2)],
      [(''note'', JStr ''  ''), (''tags'', JList []), (''priority'', JInt 5), (''turn'', JInt 3)],
      [(''note'', JStr ''You find a golden key''), (''tags'', JList []), (''priority'', JInt 3),
       (''turn'', JInt 4)],
      [(''note'', JStr ''The door creaks open''), (''tags'', JList []), (''turn'', JStr ''soon'')],
      [(''note'', JStr ''The lantern is cursed''), (''tags'', JList [JStr ''HIGH'']),
       (''priority'', JInt 5), (''turn'', JInt (- 1))]]\<rparr>"

definition gate_record :: rec where
  "gate_record =
     [(''note'', JStr ''A locked gate''), (''tags'', JList []), (''priority'', JInt 4),
      (''turn'', JInt 1)]"

definition mira_record :: rec where
  "mira_record =
     [(''note'', JStr ''Mira waits''), (''tags'', JList []), (''priority'', JInt 3),
      (''turn'', JInt 5)]"

definition focus_store :: memory_manager where
  "focus_store = (new_manager 5)\<lparr>long_memory := [gate_record, mira_record]\<rparr>"

section \<open>Strings: basic facts\<close>

lemma substr_iff: "substr w t = occurs_in w t"
proof (induction t)
  case Nil
  show ?case by (auto simp: occurs_in_def)
next
  case (Cons c cs)
  show ?case
  proof
    assume "substr w (c # cs)"
    then consider "prefix w (c # cs)" | "substr w cs" by auto
    then show "occurs_in w (c # cs)"
    proof cases
      case 1
      then obtain s where "c # cs = w @ s" by (auto simp: prefix_def)
      then have "c # cs = [] @ w @ s" by simp
      then show ?thesis unfolding occurs_in_def by blast
    next
      case 2
      with Cons obtain p s where "cs = p @ w @ s" by (auto simp: occurs_in_def)
      then have "c # cs = (c # p) @ w @ s" by simp
      then show ?thesis unfolding occurs_in_def by blast
    qed
  next
    assume "occurs_in w (c # cs)"
    then obtain p s where ps: "c # cs = p @ w @ s" by (auto simp: occurs_in_def)
    show "substr w (c # cs)"
    proof (cases p)
      case Nil
      with ps have "prefix w (c # cs)" by (simp add: prefix_def)
      then show ?thesis by simp
    next
      case (Cons a p')
      with ps have "cs = p' @ w @ s" by simp
      then have "occurs_in w cs" unfolding occurs_in_def by blast
      with Cons.IH show ?thesis by simp
    qed
  qed
qed

lemma list_ex_substr: "list_ex (\<lambda>w. substr w t) words = category_hit words t"
  by (auto simp: list_ex_iff category_hit_def substr_iff)


lemma strip_empty_iff: "(strip t = []) = list_all is_space t"
proof
  assume "strip t = []"
  then have a: "\<forall>x \<in> set (dropWhile is_space t). is_space x"
    unfolding strip_def by (simp only: rev_is_Nil_conv dropWhile_eq_Nil_conv set_rev)
  have "dropWhile is_space t = []"
  proof (rule ccontr)
    assume ne: "dropWhile is_space t \<noteq> []"
    then have "\<not> is_space (hd (dropWhile is_space t))" by (rule hd_dropWhile)
    moreover from ne have "hd (dropWhile is_space t) \<in> set (dropWhile is_space t)" by simp
    ultimately show False using a by blast
  qed
  then show "list_all is_space t" by (simp add: dropWhile_eq_Nil_conv list_all_iff)
next
  assume "list_all is_space t"
  then have d: "dropWhile is_space t = []" by (simp add: dropWhile_eq_Nil_conv list_all_iff)
  show "strip t = []" unfolding strip_def d by simp
qed

lemma blank_note_iff:
  "blank_note r = (case note_or_empty r of Inr t \<Rightarrow> strip t = [] | Inl e \<Rightarrow> False)"
  by (auto simp: blank_note_def note_or_empty_def strip_empty_iff
      split: option.splits json.splits)

lemma note_text_eq: "note_or_empty r = Inr t \<Longrightarrow> note_text r = t"
  by (auto simp: note_text_def note_or_empty_def split: option.splits json.splits if_splits)

lemma split_acc_absorb:
  "\<not> list_ex is_space v \<Longrightarrow> split_acc u (v @ s) = split_acc (u @ v) s"
  by (induction v arbitrary: u) simp_all

lemma split_acc_at_space:
  "is_space c \<Longrightarrow> split_acc u (c # s) = (if u = [] then [] else [u]) @ split_acc [] s"
  by simp

lemma token_of_space_free:
  assumes "\<not> list_ex is_space v"
  shows "token_of w v = (w = v \<and> v \<noteq> [])"
proof
  assume "token_of w v"
  then obtain p q where w: "w \<noteq> []" and v: "v = p @ w @ q"
    and p: "p = [] \<or> is_space (last p)" and q: "q = [] \<or> is_space (hd q)"
    by (auto simp: token_of_def)
  have "p = []"
  proof (rule ccontr)
    assume "p \<noteq> []"
    with p have "is_space (last p)" and "last p \<in> set v" using v by auto
    with assms show False by (auto simp: list_ex_iff)
  qed
  moreover have "q = []"
  proof (rule ccontr)
    assume "q \<noteq> []"
    with q have "is_space (hd q)" and "hd q \<in> set v" using v by auto
    with assms show False by (auto simp: list_ex_iff)
  qed
  ultimately show "w = v \<and> v \<noteq> []" using v w by simp
next
  assume "w = v \<and> v \<noteq> []"
  moreover have "v = [] @ v @ []" by simp
  ultimately show "token_of w v" unfolding token_of_def using assms by blast
qed

lemma token_of_cut:
  assumes v: "\<not> list_ex is_space v" and c: "is_space c"
  shows "token_of w (v @ c # rest) = ((w = v \<and> v \<noteq> []) \<or> token_of w rest)"
proof
  assume "token_of w (v @ c # rest)"
  then obtain p q where w: "w \<noteq> []" and wf: "\<not> list_ex is_space w"
    and e: "v @ c # rest = p @ w @ q"
    and p: "p = [] \<or> is_space (last p)" and q: "q = [] \<or> is_space (hd q)"
    by (auto simp: token_of_def)
  from e consider us where "v = p @ us" "us @ c # rest = w @ q"
    | us where "v @ us = p" "c # rest = us @ w @ q"
    by (auto simp: append_eq_append_conv2)
  then show "(w = v \<and> v \<noteq> []) \<or> token_of w rest"
  proof cases
    case 1
    have "p = []"
    proof (rule ccontr)
      assume "p \<noteq> []"
      with p 1(1) have "is_space (last p)" and "last p \<in> set v" by auto
      with v show False by (auto simp: list_ex_iff)
    qed
    with 1 have e2: "v @ c # rest = w @ q" by simp
    then consider ws where "w = v @ ws" "ws @ q = c # rest"
      | ws where "w @ ws = v" "q = ws @ c # rest"
      by (auto simp: append_eq_append_conv2)
    then have "w = v"
    proof cases
      case 1
      show ?thesis
      proof (cases ws)
        case Nil
        with 1 show ?thesis by simp
      next
        case (Cons a as)
        with 1 have "c \<in> set w" by auto
        with wf c show ?thesis by (auto simp: list_ex_iff)
      qed
    next
      case 2
      show ?thesis
      proof (cases ws)
        case Nil
        with 2 show ?thesis by simp
      next
        case (Cons a as)
        with 2 q have "is_space a" and "a \<in> set v" by auto
        with v show ?thesis by (auto simp: list_ex_iff)
      qed
    qed
    with w show ?thesis by simp
  next
    case 2
    show ?thesis
    proof (cases us)
      case Nil
      with 2 w have "c \<in> set w" by (cases w) auto
      with wf c show ?thesis by (auto simp: list_ex_iff)
    next
      case (Cons a us')
      with 2 have r: "rest = us' @ w @ q" and a: "a = c" and pe: "p = v @ c # us'" by auto
      have "us' = [] \<or> is_space (last us')" using p pe by (auto split: if_splits)
      with r w wf q have "token_of w rest" unfolding token_of_def by blast
      then show ?thesis by simp
    qed
  qed
next
  assume "(w = v \<and> v \<noteq> []) \<or> token_of w rest"
  then show "token_of w (v @ c # rest)"
  proof
    assume a: "w = v \<and> v \<noteq> []"
    have "v @ c # rest = [] @ v @ (c # rest)" by simp
    moreover have "c # rest = [] \<or> is_space (hd (c # rest))" using c by simp
    ultimately show ?thesis unfolding token_of_def using a v by blast
  next
    assume "token_of w rest"
    then obtain p q where w: "w \<noteq> []" and wf: "\<not> list_ex is_space w"
      and e: "rest = p @ w @ q"
      and p: "p = [] \<or> is_space (last p)" and q: "q = [] \<or> is_space (hd q)"
      by (auto simp: token_of_def)
    have "v @ c # rest = (v @ c # p) @ w @ q" using e by simp
    moreover have "is_space (last (v @ c # p))" using p c by auto
    ultimately show ?thesis unfolding token_of_def using w wf q by blast
  qed
qed

lemma split_ws_tokens: "(w \<in> set (split_ws s)) = token_of w s"
proof (induction s arbitrary: w rule: length_induct)
  case (1 s)
  let ?v = "takeWhile (\<lambda>c. \<not> is_space c) s"
  let ?r = "dropWhile (\<lambda>c. \<not> is_space c) s"
  have v: "\<not> list_ex is_space ?v" by (auto simp: list_ex_iff dest: set_takeWhileD)
  have s: "s = ?v @ ?r" by simp
  show ?case
  proof (cases ?r)
    case Nil
    with s have sv: "s = ?v" by simp
    have "split_ws s = (if s = [] then [] else [s])"
      using split_acc_absorb [OF v, of "[]" "[]"] sv by (simp add: split_ws_def)
    moreover have "token_of w s = (w = s \<and> s \<noteq> [])"
      using token_of_space_free [OF v, of w] sv by simp
    ultimately show ?thesis by auto
  next
    case (Cons c rest)
    then have c: "is_space c" using hd_dropWhile [of "\<lambda>c. \<not> is_space c" s] by auto
    from s Cons have e: "s = ?v @ c # rest" by simp
    then have "length rest < length s"
      by (metis length_append length_Cons add_Suc_right less_add_Suc2)
    with 1 have ih: "(w \<in> set (split_ws rest)) = token_of w rest" by blast
    have "split_acc [] (?v @ c # rest) = (if ?v = [] then [] else [?v]) @ split_acc [] rest"
      using split_acc_absorb [OF v, of "[]" "c # rest"] c by simp
    then have "split_ws s = (if ?v = [] then [] else [?v]) @ split_ws rest"
      using e by (simp add: split_ws_def)
    moreover have "token_of w s = ((w = ?v \<and> ?v \<noteq> []) \<or> token_of w rest)"
      using token_of_cut [OF v c, of w rest] e by simp
    ultimately show ?thesis using ih by auto
  qed
qed

section \<open>Normalisation: what each block does\<close>

lemma isinstance_int_coerced: "isinstance_int (coerced_int rt d f)"
  by (auto simp: coerced_int_def split: option.splits)

lemma map_of_fix_priority:
  "map_of (fst (fix_priority rt (r, ch))) k =
     (if k = ''priority'' then Some (coerced_int rt 1 (map_of r ''priority'')) else map_of r k)"
  by (simp add: fix_priority_def update_conv' coerced_int_def get_default_def
      split: option.splits)

lemma map_of_fix_turn:
  "map_of (fst (fix_turn rt (r, ch))) k =
     (if k = ''turn'' then Some (coerced_int rt 0 (map_of r ''turn'')) else map_of r k)"
  by (simp add: fix_turn_def update_conv' coerced_int_def get_default_def
      split: option.splits)

lemma map_of_fix_note:
  "map_of (fst (fix_note rt (r, ch))) k =
     (if k = ''note'' then coerced_note rt (map_of r ''note'') else map_of r k)"
  by (simp add: fix_note_def update_conv' coerced_note_def split: option.splits)

lemma map_of_normalize_step:
  "map_of (fst (normalize_step rt r ch)) k =
     (if k = ''note'' then coerced_note rt (map_of r ''note'')
      else if k = ''turn'' then Some (coerced_int rt 0 (map_of r ''turn''))
      else if k = ''priority'' then Some (coerced_int rt 1 (map_of r ''priority''))
      else map_of r k)"
proof -
  obtain r1 c1 where p: "fix_priority rt (r, ch) = (r1, c1)" by (cases "fix_priority rt (r, ch)")
  obtain r2 c2 where t: "fix_turn rt (r1, c1) = (r2, c2)" by (cases "fix_turn rt (r1, c1)")
  have 1: "map_of r1 k' = (if k' = ''priority'' then Some (coerced_int rt 1 (map_of r ''priority'')) else map_of r k')" for k'
    using map_of_fix_priority [of rt r ch k'] p by simp
  have 2: "map_of r2 k' = (if k' = ''turn'' then Some (coerced_int rt 0 (map_of r1 ''turn'')) else map_of r1 k')" for k'
    using map_of_fix_turn [of rt r1 c1 k'] t by simp
  have 3: "map_of (fst (fix_note rt (r2, c2))) k = (if k = ''note'' then coerced_note rt (map_of r2 ''note'') else map_of r2 k)"
    by (rule map_of_fix_note)
  show ?thesis unfolding normalize_step_def p t 3 by (simp add: 1 2)
qed

lemma normalize_step_normal_form: "normal_form_of rt r (fst (normalize_step rt r ch))"
  unfolding normal_form_of_def by (simp add: map_of_normalize_step)

lemma normal_form_normalized: "normal_form_of rt r r' \<Longrightarrow> normalized r'"
  unfolding normal_form_of_def normalized_def int_field_def note_ok_def
  by (auto simp: isinstance_int_coerced coerced_note_def split: option.splits if_splits)

lemma normalize_step_id: "normalized r \<Longrightarrow> normalize_step rt r ch = (r, ch)"
  unfolding normalized_def int_field_def note_ok_def normalize_step_def
    fix_priority_def fix_turn_def fix_note_def
  by (auto split: option.splits)

lemma normalize_loop_all2:
  "list_all2 (normal_form_of rt) recs (fst (normalize_loop rt recs ch))"
proof (induction recs arbitrary: ch)
  case Nil
  show ?case by simp
next
  case (Cons r rs)
  obtain r' ch' where st: "normalize_step rt r ch = (r', ch')" by (cases "normalize_step rt r ch")
  obtain rs' ch'' where lp: "normalize_loop rt rs ch' = (rs', ch'')"
    by (cases "normalize_loop rt rs ch'")
  have a: "normal_form_of rt r r'" using normalize_step_normal_form [of rt r ch] st by simp
  have b: "list_all2 (normal_form_of rt) rs rs'" using Cons.IH [of ch'] lp by simp
  show ?case using a b st lp by simp
qed

section \<open>The priority scorer: agreement with the specification\<close>

lemma fold_step:
  "(\<lambda>(tag, words) score. if list_ex (\<lambda>w. substr w t) words then score + 2 else score)
   = (\<lambda>(tag :: string, words) score :: int. score + 2 * of_bool (category_hit words t))"
  by (auto simp: fun_eq_iff list_ex_substr)

lemma fold_KEY_TAGS:
  "fold (\<lambda>(tag :: string, words) score :: int. score + 2 * of_bool (category_hit words t))
     KEY_TAGS s
   = s + 2 * of_bool (category_hit quest_words t) + 2 * of_bool (category_hit item_words t)
       + 2 * of_bool (category_hit ally_words t) + 2 * of_bool (category_hit lore_words t)"
  unfolding KEY_TAGS_def quest_words_def item_words_def ally_words_def lore_words_def
  by (simp only: fold_simps prod.case o_apply id_apply)

lemma priority_eq_score_spec: "priority text = score_spec text"
  unfolding priority_def score_spec_def Let_def fold_step fold_KEY_TAGS
  by (simp only: substr_iff of_bool_def split: if_split) auto

lemma score_spec_bounds: "1 \<le> score_spec text \<and> score_spec text \<le> 5"
  unfolding score_spec_def Let_def by (simp add: of_bool_def)

section \<open>Normalisation and the hint queue: supporting facts\<close>

lemma normalize_loop_normalized:
  "list_all normalized (fst (normalize_loop rt recs ch))"
proof -
  have "list_all2 (normal_form_of rt) recs (fst (normalize_loop rt recs ch))"
    by (rule normalize_loop_all2)
  then show ?thesis
    by (induction rule: list_all2_induct) (auto dest: normal_form_normalized)
qed

lemma normalize_loop_id:
  "list_all normalized recs \<Longrightarrow> normalize_loop rt recs ch = (recs, ch)"
  by (induction recs arbitrary: ch) (simp_all add: normalize_step_id)

lemma fst_normalize_records:
  "fst (normalize_records rt recs file) = fst (normalize_loop rt recs False)"
  by (simp add: normalize_records_def split: prod.splits)

lemma example_normalize:
  "normalize_records example_runtime
     [[(''note'', JInt 7), (''priority'', JStr ''3''), (''turn'', JStr ''soon'')],
      [(''note'', JStr ''The lantern is cursed''), (''tags'', JList [])]] None
   = ([[(''note'', JStr ''7''), (''priority'', JInt 3), (''turn'', JInt 0)],
       [(''note'', JStr ''The lantern is cursed''), (''tags'', JList []),
        (''priority'', JInt 1), (''turn'', JInt 0)]],
      Some [[(''note'', JStr ''7''), (''priority'', JInt 3), (''turn'', JInt 0)],
       [(''note'', JStr ''The lantern is cursed''), (''tags'', JList []),
        (''priority'', JInt 1), (''turn'', JInt 0)]])"
  by code_simp

lemma hints_add:
  "hints (add_consistency_hint h s) =
     (if h \<noteq> [] \<and> h \<notin> set (hints s) then hints s @ [h] else hints s)"
  by (simp add: add_consistency_hint_def)

lemma hints_pop: "hints (snd (pop_consistency_hints s)) = drop 2 (hints s)"
  by (simp add: pop_consistency_hints_def slice_from_def Let_def)

lemma distinct_apply_hint_op: "distinct (hints s) \<Longrightarrow> distinct (hints (apply_hint_op op s))"
  by (cases op) (auto simp: hints_add hints_pop)

lemma distinct_fold_hint_ops:
  "distinct (hints s) \<Longrightarrow> distinct (hints (fold apply_hint_op ops s))"
  by (induction ops arbitrary: s) (simp_all add: distinct_apply_hint_op)

section \<open>Pinning and the short-term window: supporting facts\<close>

lemma pin_note_long_memory:
  "long_memory (pin_note note s) = long_memory s @ [pinned_record note]"
  by (simp add: pin_note_def rag_add_text_def Let_def)

lemma pin_note_ltm_file:
  "ltm_file (pin_note note s) = Some (long_memory s @ [pinned_record note])"
  by (simp add: pin_note_def rag_add_text_def Let_def)

lemma lower_char_colon: "lower_char c = CHR '':'' \<Longrightarrow> c = CHR '':''"
  by (auto simp: lower_char_def upper_letters_def lower_letters_def split: if_splits)

lemma is_remember_has_colon:
  assumes "is_remember text"
  shows "dropWhile (\<lambda>c. c \<noteq> CHR '':'') text \<noteq> []"
proof -
  from assms obtain rest where "lower text = ''remember:'' @ rest"
    by (auto simp: is_remember_def prefix_def)
  then have "CHR '':'' \<in> set (lower text)" by simp
  then obtain c where "c \<in> set text" "lower_char c = CHR '':''"
    by (auto simp: lower_def)
  then have "CHR '':'' \<in> set text" using lower_char_colon by blast
  then show ?thesis by (auto simp: dropWhile_eq_Nil_conv)
qed

lemma context_lines_window:
  "0 < short_window s \<Longrightarrow>
   context_lines s =
     concat (map (\<lambda>t. [''Player: '' @ user t, ''DM: '' @ dm t])
       (drop (length (turns s) - nat (short_window s)) (turns s)))"
  by (simp add: context_lines_def slice_from_def)

lemma length_concat_pairs: "length (concat (map (\<lambda>t. [f t, g t]) xs)) = 2 * length xs"
  by (induction xs) simp_all

lemma length_context_lines:
  "0 < short_window s \<Longrightarrow>
   length (context_lines s) = 2 * min (length (turns s)) (nat (short_window s))"
  by (simp add: context_lines_window length_concat_pairs min_def)

lemma get_short_context_no_turns: "turns s = [] \<Longrightarrow> get_short_context s = []"
  by (simp add: get_short_context_def context_lines_def slice_from_def)

section \<open>Compaction: supporting facts\<close>

lemma note_ok_no_raise: "note_ok r \<Longrightarrow> \<exists>nt. note_or_empty r = Inr nt"
  by (auto simp: note_ok_def note_or_empty_def split: option.splits json.splits)

lemma blank_note_key: "blank_note r \<Longrightarrow> note_or_empty r = Inr nt \<Longrightarrow> lower (strip nt) = []"
  by (simp add: blank_note_iff lower_def)

lemma compact_loop_returns:
  "list_all note_ok xs \<Longrightarrow> \<exists>out. compact_loop m xs seen compact = Inr out"
proof (induction xs arbitrary: seen compact)
  case Nil
  show ?case by simp
next
  case (Cons r rest)
  then have "note_ok r" by simp
  from note_ok_no_raise [OF this] obtain nt where t: "note_or_empty r = Inr nt" by blast
  from Cons show ?case by (simp add: t Let_def)
qed

lemma compact_loop_nonblank:
  "compact_loop m xs seen compact = Inr out \<Longrightarrow> list_all (\<lambda>r. \<not> blank_note r) compact
   \<Longrightarrow> list_all (\<lambda>r. \<not> blank_note r) out"
proof (induction xs arbitrary: seen compact)
  case Nil
  then show ?case by simp
next
  case (Cons r rest)
  from Cons.prems(1) obtain nt where t: "note_or_empty r = Inr nt"
    by (cases "note_or_empty r") auto
  have nb: "lower (strip nt) \<noteq> [] \<Longrightarrow> \<not> blank_note r"
    by (simp add: blank_note_iff t lower_def)
  show ?case
  proof (cases "lower (strip nt) \<noteq> [] \<and> lower (strip nt) \<notin> seen")
    case True
    with Cons.prems nb have c: "list_all (\<lambda>r. \<not> blank_note r) (compact @ [r])" by simp
    from Cons.prems(1) True t
    consider "out = compact @ [r]"
      | "compact_loop m rest (insert (lower (strip nt)) seen) (compact @ [r]) = Inr out"
      by (auto simp: Let_def split: if_splits)
    then show ?thesis using c Cons.IH by cases auto
  next
    case False
    from Cons.prems(1) False t
    consider "out = compact" | "compact_loop m rest seen compact = Inr out"
      by (auto simp: Let_def split: if_splits)
    then show ?thesis using Cons.prems(2) Cons.IH by cases auto
  qed
qed

lemma compact_loop_all_blank:
  "list_all blank_note xs \<Longrightarrow> compact_loop m xs seen compact = Inr compact"
proof (induction xs arbitrary: seen)
  case Nil
  show ?case by simp
next
  case (Cons r rest)
  then obtain nt where t: "note_or_empty r = Inr nt" and b: "strip nt = []"
    by (cases "note_or_empty r") (auto simp: blank_note_iff)
  from Cons show ?case by (simp add: t b lower_def Let_def)
qed

lemma compact_loop_closed_form:
  "compact_loop m xs seen compact = Inr out \<Longrightarrow> int (length compact) < m
   \<Longrightarrow> out = compact @ take (nat m - length compact) (dedup_from seen xs)"
proof (induction xs arbitrary: seen compact)
  case Nil
  then show ?case by simp
next
  case (Cons r rest)
  from Cons.prems(1) obtain nt where t: "note_or_empty r = Inr nt"
    by (cases "note_or_empty r") auto
  have k: "note_key r = lower (strip nt)" by (simp add: note_key_def t)
  show ?case
  proof (cases "lower (strip nt) \<noteq> [] \<and> lower (strip nt) \<notin> seen")
    case True
    show ?thesis
    proof (cases "m \<le> int (length compact) + 1")
      case stop: True
      with Cons.prems True t have "out = compact @ [r]" by (simp add: Let_def)
      moreover from stop Cons.prems(2) have "nat m - length compact = 1" by linarith
      ultimately show ?thesis using True k by simp
    next
      case go: False
      with Cons.prems True t
      have "compact_loop m rest (insert (lower (strip nt)) seen) (compact @ [r]) = Inr out"
        by (simp add: Let_def)
      moreover from go have "int (length (compact @ [r])) < m" by simp
      ultimately have "out = (compact @ [r])
          @ take (nat m - length (compact @ [r])) (dedup_from (insert (lower (strip nt)) seen) rest)"
        by (rule Cons.IH)
      moreover from go have "nat m - length compact = Suc (nat m - length (compact @ [r]))"
        by simp
      ultimately show ?thesis using True k by simp
    qed
  next
    case False
    with Cons.prems t have "compact_loop m rest seen compact = Inr out"
      by (auto simp: Let_def split: if_splits)
    then have "out = compact @ take (nat m - length compact) (dedup_from seen rest)"
      using Cons.prems(2) by (rule Cons.IH)
    then show ?thesis using False k by auto
  qed
qed

lemma dedup_from_set:
  "r \<in> set (dedup_from seen xs) \<Longrightarrow> r \<in> set xs \<and> note_key r \<noteq> [] \<and> note_key r \<notin> seen"
  by (induction xs arbitrary: seen) (auto split: if_splits)

lemma dedup_from_distinct: "distinct (map note_key (dedup_from seen xs))"
proof (induction xs arbitrary: seen)
  case Nil
  show ?case by simp
next
  case (Cons x rest)
  have "note_key x \<notin> note_key ` set (dedup_from (insert (note_key x) seen) rest)"
  proof
    assume "note_key x \<in> note_key ` set (dedup_from (insert (note_key x) seen) rest)"
    then obtain y where y: "y \<in> set (dedup_from (insert (note_key x) seen) rest)"
      and k: "note_key x = note_key y" by auto
    from dedup_from_set [OF y] k show False by simp
  qed
  with Cons show ?case by simp
qed

lemma dedup_from_subseq: "subseq (dedup_from seen xs) xs"
  by (induction xs arbitrary: seen) auto

lemma dedup_from_first:
  "r \<in> set (dedup_from seen xs) \<Longrightarrow> find (\<lambda>x. note_key x = note_key r) xs = Some r"
proof (induction xs arbitrary: seen)
  case Nil
  then show ?case by simp
next
  case (Cons x rest)
  show ?case
  proof (cases "note_key x \<noteq> [] \<and> note_key x \<notin> seen")
    case True
    with Cons.prems consider "r = x" | "r \<in> set (dedup_from (insert (note_key x) seen) rest)"
      by auto
    then show ?thesis
    proof cases
      case 1
      then show ?thesis by simp
    next
      case 2
      from dedup_from_set [OF 2] have "note_key x \<noteq> note_key r" by auto
      with Cons.IH [OF 2] show ?thesis by simp
    qed
  next
    case False
    with Cons.prems have in_rest: "r \<in> set (dedup_from seen rest)" by auto
    from dedup_from_set [OF in_rest] False have "note_key x \<noteq> note_key r" by auto
    with Cons.IH [OF in_rest] show ?thesis by simp
  qed
qed

lemma find_last_rev:
  "find P xs = Some r \<Longrightarrow> last (filter P (rev xs)) = r"
proof (induction xs)
  case Nil
  then show ?case by simp
next
  case (Cons x rest)
  then show ?case by (auto split: if_splits)
qed

lemma subseq_rev: "subseq xs ys \<Longrightarrow> subseq (rev xs) (rev ys)"
proof (induction rule: list_emb.induct)
  case (list_emb_Nil ys)
  show ?case by simp
next
  case (list_emb_Cons xs ys y)
  then show ?case by (simp add: subseq_rev_drop_many)
next
  case (list_emb_Cons2 x y xs ys)
  then show ?case by (simp add: list_emb_append_mono)
qed

lemma subseq_take: "subseq (take n xs) xs"
  by (metis append_take_drop_id list_emb_append_mono subseq_order.order_refl list_emb_Nil append_Nil2)

lemma compact_long_memory_closed_form:
  assumes "1 \<le> m" and "compact_long_memory m s = Inr s'"
  shows "long_memory s' = rev (take (nat m) (dedup_from {} (rev (long_memory s))))"
proof (cases "long_memory s = []")
  case True
  with assms show ?thesis by (simp add: compact_long_memory_def)
next
  case False
  with assms(2) obtain out where l: "compact_loop m (rev (long_memory s)) {} [] = Inr out"
    and s': "s' = s\<lparr>long_memory := rev out, ltm_file := Some (rev out)\<rparr>"
    by (auto simp: compact_long_memory_def split: sum.splits)
  from compact_loop_closed_form [OF l] assms(1)
  have "out = take (nat m) (dedup_from {} (rev (long_memory s)))" by simp
  with s' show ?thesis by simp
qed

lemma compact_long_memory_properties:
  assumes "1 \<le> m" and "compact_long_memory m s = Inr s'"
  shows "int (length (long_memory s')) \<le> m"
    and "distinct (map note_key (long_memory s'))"
    and "subseq (long_memory s') (long_memory s)"
    and "\<forall>r \<in> set (long_memory s').
           r = last (filter (\<lambda>x. note_key x = note_key r) (long_memory s))"
proof -
  let ?d = "dedup_from {} (rev (long_memory s))"
  have cf: "long_memory s' = rev (take (nat m) ?d)"
    using assms by (rule compact_long_memory_closed_form)
  show "int (length (long_memory s')) \<le> m" using assms(1) by (simp add: cf)
  have "distinct (map note_key (take (nat m) ?d))"
    using dedup_from_distinct [of "{}" "rev (long_memory s)"]
    by (simp add: take_map [symmetric] distinct_take)
  then show "distinct (map note_key (long_memory s'))"
    by (simp add: cf rev_map [symmetric])
  have "subseq (take (nat m) ?d) (rev (long_memory s))"
    using subseq_take dedup_from_subseq subseq_order.order_trans by blast
  then have "subseq (rev (take (nat m) ?d)) (rev (rev (long_memory s)))"
    by (rule subseq_rev)
  then show "subseq (long_memory s') (long_memory s)" by (simp add: cf)
  show "\<forall>r \<in> set (long_memory s').
           r = last (filter (\<lambda>x. note_key x = note_key r) (long_memory s))"
  proof
    fix r assume "r \<in> set (long_memory s')"
    then have "r \<in> set ?d" by (auto simp: cf dest: in_set_takeD)
    from find_last_rev [OF dedup_from_first [OF this]]
    show "r = last (filter (\<lambda>x. note_key x = note_key r) (long_memory s))" by simp
  qed
qed

lemma compact_long_memory_empty: "long_memory s = [] \<Longrightarrow> compact_long_memory m s = Inr s"
  by (simp add: compact_long_memory_def)

lemma compact_long_memory_returns:
  "list_all note_ok (long_memory s) \<Longrightarrow> \<exists>s'. compact_long_memory m s = Inr s'"
  using compact_loop_returns [of "rev (long_memory s)" m "{}" "[]"]
  by (auto simp: compact_long_memory_def list_all_iff)

section \<open>Lightweight recall: supporting facts\<close>

lemma is_space_lower_char: "is_space (lower_char c) = is_space c"
proof (cases "lower_char c = c")
  case True
  then show ?thesis by simp
next
  case False
  then have "\<not> is_space c \<and> \<not> is_space (lower_char c)"
    by (auto simp: lower_char_def upper_letters_def lower_letters_def is_space_def
        split: if_splits)
  then show ?thesis by simp
qed

lemma lower_simps:
  "lower [] = []"
  "lower (c # cs) = lower_char c # lower cs"
  "lower (xs @ ys) = lower xs @ lower ys"
  "(lower xs = []) = (xs = [])"
  by (simp_all add: lower_def)

lemma split_acc_lower: "split_acc (lower w) (lower s) = map lower (split_acc w s)"
proof (induction s arbitrary: w)
  case Nil
  show ?case by (simp add: lower_simps)
next
  case (Cons c cs)
  have a: "split_acc [] (lower cs) = map lower (split_acc [] cs)"
    using Cons [of "[]"] by (simp add: lower_simps)
  have b: "split_acc (lower w @ [lower_char c]) (lower cs) = map lower (split_acc (w @ [c]) cs)"
    using Cons [of "w @ [c]"] by (simp add: lower_simps)
  show ?case by (simp add: lower_simps is_space_lower_char a b)
qed

lemma split_ws_lower: "split_ws (lower s) = map lower (split_ws s)"
  using split_acc_lower [of "[]" s] by (simp add: split_ws_def lower_simps)

lemma split_acc_nonempty: "[] \<notin> set (split_acc w s)"
  by (induction s arbitrary: w) auto

lemma split_ws_nonempty: "w \<in> set (split_ws s) \<Longrightarrow> w \<noteq> []"
  using split_acc_nonempty [of "[]" s] by (auto simp: split_ws_def)

lemma score_rank_key:
  assumes "note_or_empty r = Inr t"
  shows "score rt (lower cue) (map lower focus) r = Inr (rank_key rt cue focus r)"
proof -
  have f: "list_ex (\<lambda>w. w \<noteq> [] \<and> substr w (lower t)) (map lower focus)
     = (\<exists>w. w \<in> set focus \<and> w \<noteq> [] \<and> occurs_in (lower w) (lower t))"
    by (auto simp: list_ex_iff substr_iff lower_simps)
  have c: "list_ex (\<lambda>w. w \<noteq> [] \<and> substr w (lower t)) (split_ws (lower cue))
     = (\<exists>w. token_of w cue \<and> occurs_in (lower w) (lower t))"
    unfolding split_ws_tokens [symmetric] using split_ws_nonempty [of _ cue]
    by (auto simp: list_ex_iff substr_iff split_ws_lower lower_simps)
  have p: "to_int rt (get_default r k (JInt d)) d = coerced_or rt d (map_of r k)" for k d
    by (simp add: to_int_def get_default_def coerced_or_def split: option.splits)
  show ?thesis
    by (simp add: score_def rank_key_def note_text_eq [OF assms] assms Let_def f c p)
qed

lemma pool_filter_result:
  "pool_filter xs = Inr pool \<Longrightarrow>
   pool = filter (\<lambda>r. \<not> blank_note r) xs \<and> (\<forall>r \<in> set xs. \<exists>t. note_or_empty r = Inr t)"
proof (induction xs arbitrary: pool)
  case Nil
  then show ?case by simp
next
  case (Cons r rs)
  from Cons.prems obtain t where t: "note_or_empty r = Inr t"
    by (cases "note_or_empty r") auto
  from Cons.prems t obtain ps where ps: "pool_filter rs = Inr ps"
    and p: "pool = (if strip t \<noteq> [] then r # ps else ps)"
    by (cases "pool_filter rs") auto
  from Cons.IH [OF ps] t p show ?case by (auto simp: blank_note_iff)
qed

lemma pool_filter_returns:
  "list_all note_ok xs \<Longrightarrow> \<exists>pool. pool_filter xs = Inr pool"
proof (induction xs)
  case Nil
  show ?case by simp
next
  case (Cons r rs)
  then have "note_ok r" by simp
  from note_ok_no_raise [OF this] obtain t where t: "note_or_empty r = Inr t" by blast
  from Cons show ?case by (auto simp: t)
qed

lemma keys_of_map:
  "\<forall>r \<in> set pool. key r = Inr (f r) \<Longrightarrow> keys_of key pool = Inr (map f pool)"
  by (induction pool) simp_all

lemma nonblank_note_str:
  assumes "note_or_empty r = Inr t" and "\<not> blank_note r"
  shows "map_of r ''note'' = Some (JStr t)"
proof -
  from assms have ne: "strip t \<noteq> []" by (simp add: blank_note_iff)
  then have "t \<noteq> []" by (auto simp: strip_def)
  with assms(1) show ?thesis
    by (auto simp: note_or_empty_def split: option.splits if_splits json.splits)
qed

lemma bullets_of_map:
  "\<forall>r \<in> set rs. (\<exists>t. note_or_empty r = Inr t) \<and> \<not> blank_note r \<Longrightarrow>
   bullets_of rt rs = Inr (map (\<lambda>r. ''- '' @ note_text r) rs)"
proof (induction rs)
  case Nil
  show ?case by simp
next
  case (Cons r rs)
  then obtain t where t: "note_or_empty r = Inr t" and nb: "\<not> blank_note r" by auto
  from nonblank_note_str [OF t nb] have "bullet rt r = Inr (''- '' @ note_text r)"
    by (simp add: bullet_def note_text_def)
  with Cons show ?case by simp
qed

lemma insort_key_map:
  "insort_key F (p x) (map p ys) = map p (insort_key (\<lambda>y. F (p y)) x ys)"
  by (induction ys) simp_all

lemma sort_key_map: "sort_key F (map p xs) = map p (sort_key (\<lambda>y. F (p y)) xs)"
  by (induction xs) (simp_all add: insort_key_map)

lemma sorted_reverse_sort_key:
  "sorted_reverse (map f pool) pool = sort_key (\<lambda>r. (- fst (f r), - snd (f r))) pool"
proof -
  have z: "zip (map f pool) pool = map (\<lambda>r. (f r, r)) pool"
    by (induction pool) simp_all
  show ?thesis
    unfolding sorted_reverse_def z by (simp add: sort_key_map o_def)
qed

lemma neg_key_le:
  "((- fst a, - snd a) \<le> (- fst b, - snd b)) = outranks a (b :: int \<times> int)"
  by (auto simp: less_eq_prod_def outranks_def)

lemma sorted_reverse_sorted:
  "sorted_wrt (\<lambda>a b. outranks (f a) (f b)) (sorted_reverse (map f pool) pool)"
proof -
  have "sorted (map (\<lambda>r. (- fst (f r), - snd (f r))) (sort_key (\<lambda>r. (- fst (f r), - snd (f r))) pool))"
    by (rule sorted_sort_key)
  then have "sorted_wrt (\<lambda>a b. (- fst (f a), - snd (f a)) \<le> (- fst (f b), - snd (f b)))
      (sort_key (\<lambda>r. (- fst (f r), - snd (f r))) pool)"
    by (simp only: sorted_map)
  then show ?thesis
    unfolding sorted_reverse_sort_key by (simp only: neg_key_le)
qed

lemma sorted_reverse_mset: "mset (sorted_reverse (map f pool) pool) = mset pool"
  unfolding sorted_reverse_sort_key by simp

lemma sorted_reverse_stable:
  "filter (\<lambda>r. f r = c) (sorted_reverse (map f pool) pool) = filter (\<lambda>r. f r = c) pool"
proof -
  have e: "(\<lambda>r. f r = c) = (\<lambda>r. (- fst (f r), - snd (f r)) = (- fst c, - snd c))"
    by (auto simp: fun_eq_iff prod_eq_iff)
  show ?thesis unfolding sorted_reverse_sort_key e by (rule sort_key_stable)
qed

lemma recall_relevant_eval:
  assumes "\<not> use_semantic_rag s"
    and "pool_filter (slice_from (- 200) (long_memory s)) = Inr pool"
  shows "recall_relevant rt k cue npc_focus s =
     Inr (render_notes (map (\<lambda>r. ''- '' @ note_text r)
       (slice_to k (sorted_reverse
          (map (rank_key rt cue (case npc_focus of None \<Rightarrow> [] | Some ws \<Rightarrow> ws)) pool) pool))))"
proof -
  let ?focus = "case npc_focus of None \<Rightarrow> [] | Some ws \<Rightarrow> ws"
  let ?key = "rank_key rt cue ?focus"
  from pool_filter_result [OF assms(2)]
  have pool: "pool = filter (\<lambda>r. \<not> blank_note r) (slice_from (- 200) (long_memory s))"
    and ok: "\<forall>r \<in> set (slice_from (- 200) (long_memory s)). \<exists>t. note_or_empty r = Inr t"
    by auto
  have in_pool: "(\<exists>t. note_or_empty r = Inr t) \<and> \<not> blank_note r" if "r \<in> set pool" for r
    using that ok by (auto simp: pool)
  have "\<forall>r \<in> set pool. score rt (lower cue) (map lower ?focus) r = Inr (?key r)"
    using in_pool score_rank_key by blast
  then have keys: "keys_of (score rt (lower cue) (map lower ?focus)) pool = Inr (map ?key pool)"
    by (rule keys_of_map)
  have "set (slice_to k (sorted_reverse (map ?key pool) pool)) \<subseteq> set pool"
    using sorted_reverse_mset [of ?key pool, THEN mset_eq_setD]
    by (auto simp: slice_to_def dest: in_set_takeD)
  then have "\<forall>r \<in> set (slice_to k (sorted_reverse (map ?key pool) pool)).
      (\<exists>t. note_or_empty r = Inr t) \<and> \<not> blank_note r"
    using in_pool by blast
  then have bl: "bullets_of rt (slice_to k (sorted_reverse (map ?key pool) pool))
      = Inr (map (\<lambda>r. ''- '' @ note_text r) (slice_to k (sorted_reverse (map ?key pool) pool)))"
    by (rule bullets_of_map)
  show ?thesis
    by (simp add: recall_relevant_def assms Let_def keys bl)
qed

lemma recall_relevant_raises:
  assumes "\<not> use_semantic_rag s"
    and "pool_filter (slice_from (- 200) (long_memory s)) = Inl e"
  shows "recall_relevant rt k cue npc_focus s = Inl e"
  by (simp add: recall_relevant_def assms Let_def)

lemma rank_key_code:
  "rank_key rt cue focus r =
     (coerced_or rt 1 (map_of r ''priority'')
        + of_bool (list_ex (\<lambda>w. w \<noteq> [] \<and> substr (lower w) (lower (note_text r))) focus)
        + of_bool (list_ex (\<lambda>w. substr (lower w) (lower (note_text r))) (split_ws cue)),
      coerced_or rt 0 (map_of r ''turn''))"
proof -
  have f: "(\<exists>w. w \<in> set focus \<and> w \<noteq> [] \<and> occurs_in (lower w) (lower (note_text r)))
      = list_ex (\<lambda>w. w \<noteq> [] \<and> substr (lower w) (lower (note_text r))) focus"
    by (auto simp: list_ex_iff substr_iff)
  have c: "(\<exists>w. token_of w cue \<and> occurs_in (lower w) (lower (note_text r)))
      = list_ex (\<lambda>w. substr (lower w) (lower (note_text r))) (split_ws cue)"
    unfolding split_ws_tokens [symmetric] by (auto simp: list_ex_iff substr_iff)
  show ?thesis unfolding rank_key_def f c by (rule refl)
qed

lemma stated_key_code:
  "stated_key rt cue focus r =
     (coerced_or rt 1 (map_of r ''priority'')
        + of_bool (list_ex (\<lambda>w. substr (lower w) (lower (note_text r))) focus)
        + of_bool (list_ex (\<lambda>w. substr (lower w) (lower (note_text r))) (split_ws cue)),
      coerced_or rt 0 (map_of r ''turn''))"
proof -
  have f: "(\<exists>w. w \<in> set focus \<and> occurs_in (lower w) (lower (note_text r)))
      = list_ex (\<lambda>w. substr (lower w) (lower (note_text r))) focus"
    by (auto simp: list_ex_iff substr_iff)
  have c: "(\<exists>w. token_of w cue \<and> occurs_in (lower w) (lower (note_text r)))
      = list_ex (\<lambda>w. substr (lower w) (lower (note_text r))) (split_ws cue)"
    unfolding split_ws_tokens [symmetric] by (auto simp: list_ex_iff substr_iff)
  show ?thesis unfolding stated_key_def f c by (rule refl)
qed

lemma example_recall:
  "recall_relevant example_runtime 3 ''where is MIRA'' (Some [''Lantern'']) example_store
   = Inr (''Relevant notes:'' @ NL @ ''- The lantern is cursed'' @ NL
       @ ''- Mira the smith joins you'' @ NL @ ''- A locked gate'')"
  by code_simp

lemma example_keys:
  "rank_key example_runtime ''where is MIRA'' [''Lantern'']
     [(''note'', JStr ''Mira the smith joins you''), (''tags'', JList []),
      (''priority'', JStr ''3''), (''turn'', JInt 2)] = (4, 2)"
  "rank_key example_runtime ''where is MIRA'' [''Lantern''] gate_record = (4, 1)"
  "rank_key example_runtime ''where is MIRA'' [''Lantern'']
     [(''note'', JStr ''The door creaks open''), (''tags'', JList []), (''turn'', JStr ''soon'')]
     = (1, 0)"
  unfolding rank_key_code by code_simp+

lemma focus_store_recall:
  "recall_relevant example_runtime 2 ''look'' (Some [[], ''Mira'']) focus_store
   = Inr (''Relevant notes:'' @ NL @ ''- Mira waits'' @ NL @ ''- A locked gate'')"
  by code_simp

lemma focus_store_keys:
  "stated_key example_runtime ''look'' [[], ''Mira''] mira_record = (4, 5)"
  "stated_key example_runtime ''look'' [[], ''Mira''] gate_record = (5, 1)"
  unfolding stated_key_code by code_simp+

section \<open>Claims\<close>

text \<open>
  C4. For every text the priority scorer returns an integer between 1 and 5, namely base 1,
  plus 2 for each of the four categories quest, item, ally and lore that has a keyword
  occurring in the lowercased text, plus 3 if the lowercased text contains
  \<open>remember:\<close>, the sum capped at 5.
\<close>
theorem priority_is_capped_category_sum:
  "priority text = score_spec text \<and> 1 \<le> priority text \<and> priority text \<le> 5"
  using priority_eq_score_spec [of "text"] score_spec_bounds [of "text"] by simp

theorem priority_is_capped_category_sum_witness:
  "priority ''Remember: the Key to the temple'' = 5
   \<and> score_spec ''Remember: the Key to the temple'' = 5
   \<and> priority ''You take the old map.'' = 3"
proof -
  have a: "priority ''Remember: the Key to the temple'' = 5" by code_simp
  have b: "priority ''You take the old map.'' = 3" by code_simp
  from a b priority_is_capped_category_sum [of "''Remember: the Key to the temple''"]
  show ?thesis by simp
qed

text \<open>
  C9. Normalisation is idempotent: applied to its own output, \<open>_normalize_records\<close> returns
  that output again, and finds no change, so it leaves the long-term file as it is.
\<close>
theorem normalize_records_idempotent:
  "normalize_records rt (fst (normalize_records rt recs file)) file'
     = (fst (normalize_records rt recs file), file')"
proof -
  have "list_all normalized (fst (normalize_records rt recs file))"
    unfolding fst_normalize_records by (rule normalize_loop_normalized)
  then have "normalize_loop rt (fst (normalize_records rt recs file)) False
     = (fst (normalize_records rt recs file), False)"
    by (rule normalize_loop_id)
  then show ?thesis by (simp add: normalize_records_def)
qed

theorem normalize_records_idempotent_witness:
  "normalize_records example_runtime
     [[(''note'', JStr ''7''), (''priority'', JInt 3), (''turn'', JInt 0)],
      [(''note'', JStr ''The lantern is cursed''), (''tags'', JList []),
       (''priority'', JInt 1), (''turn'', JInt 0)]] None
   = ([[(''note'', JStr ''7''), (''priority'', JInt 3), (''turn'', JInt 0)],
       [(''note'', JStr ''The lantern is cursed''), (''tags'', JList []),
        (''priority'', JInt 1), (''turn'', JInt 0)]], None)"
  using normalize_records_idempotent [of example_runtime
      "[[(''note'', JInt 7), (''priority'', JStr ''3''), (''turn'', JStr ''soon'')],
        [(''note'', JStr ''The lantern is cursed''), (''tags'', JList [])]]" None None]
  unfolding example_normalize fst_conv .

text \<open>
  C3, as amended. After \<open>_normalize_records\<close> every record has a \<open>priority\<close> and a
  \<open>turn\<close> that are Python ints: the value itself when it already was an int (or bool), else
  \<open>int\<close> of it, else the default 1 for \<open>priority\<close> and 0 for \<open>turn\<close>. A note that is
  present and not \<open>None\<close> is a string; a missing note stays missing and a \<open>None\<close> note
  stays \<open>None\<close>. All other fields are untouched.
\<close>
theorem normalize_records_coerces:
  "list_all2 (normal_form_of rt) recs (fst (normalize_records rt recs file))
   \<and> list_all normalized (fst (normalize_records rt recs file))"
  unfolding fst_normalize_records
  using normalize_loop_all2 [of rt recs False] normalize_loop_normalized [of rt recs False]
  by simp

theorem normalize_records_coerces_witness:
  "list_all2 (normal_form_of example_runtime)
     [[(''note'', JInt 7), (''priority'', JStr ''3''), (''turn'', JStr ''soon'')],
      [(''note'', JStr ''The lantern is cursed''), (''tags'', JList [])]]
     [[(''note'', JStr ''7''), (''priority'', JInt 3), (''turn'', JInt 0)],
      [(''note'', JStr ''The lantern is cursed''), (''tags'', JList []),
       (''priority'', JInt 1), (''turn'', JInt 0)]]
   \<and> list_all normalized
     [[(''note'', JStr ''7''), (''priority'', JInt 3), (''turn'', JInt 0)],
      [(''note'', JStr ''The lantern is cursed''), (''tags'', JList []),
       (''priority'', JInt 1), (''turn'', JInt 0)]]"
  using normalize_records_coerces [of example_runtime
      "[[(''note'', JInt 7), (''priority'', JStr ''3''), (''turn'', JStr ''soon'')],
        [(''note'', JStr ''The lantern is cursed''), (''tags'', JList [])]]" None]
  unfolding example_normalize fst_conv .

text \<open>
  C3 as stated fails on the note: a record whose note is \<open>None\<close> and a record without a
  note go through unchanged, so their note is not a string afterwards.
\<close>
theorem normalize_records_note_counterexample:
  "\<not> list_all note_is_str (fst (normalize_records example_runtime
      [[(''note'', JNull), (''priority'', JInt 2), (''turn'', JInt 4)],
       [(''priority'', JInt 2), (''turn'', JInt 4)]] None))"
  by code_simp

text \<open>
  C7. Starting from the empty queue, after any run of adds and drains the hint queue holds
  no string twice; an add appends the hint only when it is non-empty and not yet present.
\<close>
theorem hint_queue_no_duplicates:
  assumes "hints s = []"
  shows "distinct (hints (fold apply_hint_op ops s))
     \<and> hints (add_consistency_hint h (fold apply_hint_op ops s)) =
         (if h \<noteq> [] \<and> h \<notin> set (hints (fold apply_hint_op ops s))
          then hints (fold apply_hint_op ops s) @ [h]
          else hints (fold apply_hint_op ops s))"
  using assms distinct_fold_hint_ops [of s ops] by (simp add: hints_add)

theorem hint_queue_no_duplicates_witness:
  "hints (new_manager 5) = []
   \<and> distinct (hints (fold apply_hint_op [Add ''a'', Add ''b'', Add ''a'', Drain, Add ''a'']
        (new_manager 5)))
   \<and> hints (fold apply_hint_op [Add ''a'', Add ''b'', Add ''a'', Drain, Add ''a'', Add ''c'', Add ''''] (new_manager 5))
       = [''a'', ''c'']"
proof -
  have e: "hints (new_manager 5) = []" by (simp add: new_manager_def)
  have f: "hints (fold apply_hint_op [Add ''a'', Add ''b'', Add ''a'', Drain, Add ''a'', Add ''c'', Add ''''] (new_manager 5))
       = [''a'', ''c'']" by code_simp
  from hint_queue_no_duplicates [OF e, of "[Add ''a'', Add ''b'', Add ''a'', Drain, Add ''a'']" "''c''"] e f
  show ?thesis by simp
qed

text \<open>
  C6. The hint queue is first-in first-out and a drain removes up to two hints: from the
  empty queue, after adding three different non-empty hints \<open>a\<close>, \<open>b\<close>, \<open>c\<close> in this
  order, the first \<open>pop_consistency_hints\<close> returns the header followed by the bullets of
  \<open>a\<close> and \<open>b\<close> and leaves only \<open>c\<close> queued, the second returns the header and the bullet
  of \<open>c\<close> and leaves the queue empty, and the third returns the empty string.
\<close>
theorem hint_queue_fifo:
  assumes "hints s = []" and "a \<noteq> []" and "b \<noteq> []" and "c \<noteq> []"
    and "a \<noteq> b" and "a \<noteq> c" and "b \<noteq> c"
  shows "let s3 = add_consistency_hint c (add_consistency_hint b (add_consistency_hint a s));
             (out1, s4) = pop_consistency_hints s3;
             (out2, s5) = pop_consistency_hints s4;
             (out3, s6) = pop_consistency_hints s5
         in hints s3 = [a, b, c]
          \<and> out1 = ''Consistency hints:'' @ NL @ ''- '' @ a @ NL @ ''- '' @ b
          \<and> hints s4 = [c] \<and> hints_file s4 = Some [c]
          \<and> out2 = ''Consistency hints:'' @ NL @ ''- '' @ c
          \<and> hints s5 = [] \<and> hints_file s5 = Some []
          \<and> out3 = [] \<and> s6 = s5"
  using assms
  by (simp add: add_consistency_hint_def pop_consistency_hints_def slice_to_def slice_from_def Let_def)

theorem hint_queue_fifo_witness:
  "let s3 = add_consistency_hint ''C'' (add_consistency_hint ''B'' (add_consistency_hint ''A'' (new_manager 5)));
             (out1, s4) = pop_consistency_hints s3;
             (out2, s5) = pop_consistency_hints s4;
             (out3, s6) = pop_consistency_hints s5
         in hints s3 = [''A'', ''B'', ''C'']
          \<and> out1 = ''Consistency hints:'' @ NL @ ''- A'' @ NL @ ''- B''
          \<and> hints s4 = [''C''] \<and> hints_file s4 = Some [''C'']
          \<and> out2 = ''Consistency hints:'' @ NL @ ''- C''
          \<and> hints s5 = [] \<and> hints_file s5 = Some []
          \<and> out3 = [] \<and> s6 = s5"
proof -
  have e: "hints (new_manager 5) = []" by (simp add: new_manager_def)
  from hint_queue_fifo [OF e, of "''A''" "''B''" "''C''"] show ?thesis by simp
qed

text \<open>
  C1, as amended. \<open>pin_note\<close> has no emptiness test: it appends one pinned record and
  writes the long-term file for every note. The silent no-op for a note that is empty after
  trimming is in the \<open>remember:\<close> command of app.py, which then leaves the manager as it is
  and answers with the usage warning, and otherwise pins the trimmed note.
\<close>
theorem remember_guards_pin_note:
  "long_memory (pin_note note s) = long_memory s @ [pinned_record note]
   \<and> ltm_file (pin_note note s) = Some (long_memory s @ [pinned_record note])
   \<and> (is_remember text \<longrightarrow>
        remember_command text s =
          (let note = strip (drop 1 (dropWhile (\<lambda>c. c \<noteq> CHR '':'') text))
           in if note = [] then Inr (Warning ''Usage: remember: <note>'', s)
              else Inr (Success (''Pinned: '' @ note), pin_note note s)))"
proof -
  have "remember_command text s =
          (let note = strip (drop 1 (dropWhile (\<lambda>c. c \<noteq> CHR '':'') text))
           in if note = [] then Inr (Warning ''Usage: remember: <note>'', s)
              else Inr (Success (''Pinned: '' @ note), pin_note note s))"
    if "is_remember text"
  proof -
    from is_remember_has_colon [OF that] obtain colon rest
      where d: "dropWhile (\<lambda>c. c \<noteq> CHR '':'') text = colon # rest"
      by (cases "dropWhile (\<lambda>c. c \<noteq> CHR '':'') text") auto
    show ?thesis by (simp add: remember_command_def d Let_def)
  qed
  then show ?thesis by (simp add: pin_note_long_memory pin_note_ltm_file)
qed

theorem remember_guards_pin_note_witness:
  "is_remember ''Remember:   ''
   \<and> remember_command ''Remember:   '' (new_manager 5)
       = Inr (Warning ''Usage: remember: <note>'', new_manager 5)
   \<and> long_memory (pin_note ''The lantern is cursed'' (new_manager 5))
       = long_memory (new_manager 5) @ [pinned_record ''The lantern is cursed'']"
proof -
  have g: "is_remember ''Remember:   ''" by code_simp
  have n: "strip (drop 1 (dropWhile (\<lambda>c. c \<noteq> CHR '':'') ''Remember:   '')) = []"
    by code_simp
  from remember_guards_pin_note
    [of "''The lantern is cursed''" "new_manager 5" "''Remember:   ''"] g
  show ?thesis unfolding Let_def n by simp
qed

text \<open>
  C1 as stated fails on \<open>pin_note\<close>: pinning the empty note, or a note of blanks only,
  appends a record to the long-term store and writes the file.
\<close>
theorem pin_note_blank_counterexample:
  "strip '' '' = [] \<and> long_memory (new_manager 5) = [] \<and> ltm_file (new_manager 5) = None
   \<and> long_memory (pin_note [] (new_manager 5)) = [pinned_record []]
   \<and> long_memory (pin_note '' '' (new_manager 5)) = [pinned_record '' '']
   \<and> ltm_file (pin_note '' '' (new_manager 5)) = Some [pinned_record '' '']"
  by code_simp

text \<open>
  C2 at window size 0. With two turns appended and \<open>short_window = 0\<close> the claim asks for
  \<open>min 2 0 = 0\<close> turn-pairs, that is the empty string; \<open>turns[-0:]\<close> is the whole history,
  and \<open>get_short_context\<close> renders both pairs.
\<close>
theorem get_short_context_window_zero:
  "get_short_context
     (add_turn ''go north'' ''You see a door.'' (add_turn ''look'' ''A dark hall.'' (new_manager 0)))
   = ''Player: look'' @ NL @ ''DM: A dark hall.'' @ NL @ ''Player: go north'' @ NL
       @ ''DM: You see a door.''
   \<and> length (context_lines
       (add_turn ''go north'' ''You see a door.'' (add_turn ''look'' ''A dark hall.'' (new_manager 0))))
     = 4"
  by code_simp

text \<open>
  C5 at \<open>max_notes = 0\<close>. The loop tests the cap only after it has appended, so a store
  of one note compacted with cap 0 still holds that note: one record, where the claim allows
  none.
\<close>
theorem compact_cap_zero_keeps_one:
  "map_sum id long_memory
     (compact_long_memory 0 (pin_note ''The lantern is cursed'' (new_manager 5)))
   = Inr [pinned_record ''The lantern is cursed'']"
  by code_simp

text \<open>
  C10. Whatever \<open>max_notes\<close> is, no record whose note is empty or whitespace only
  survives \<open>compact_long_memory\<close>, and a store that holds only such records, such as one
  made by pinning empty or blank notes, comes out empty. The call returns whenever every
  stored note is a string, \<open>None\<close> or absent.
\<close>
theorem compact_drops_blank_notes:
  "(list_all note_ok (long_memory s) \<longrightarrow> (\<exists>s'. compact_long_memory m s = Inr s'))
   \<and> (\<forall>s'. compact_long_memory m s = Inr s' \<longrightarrow>
         list_all (\<lambda>r. \<not> blank_note r) (long_memory s'))
   \<and> (list_all blank_note (long_memory s) \<longrightarrow>
         (\<exists>s'. compact_long_memory m s = Inr s' \<and> long_memory s' = []))"
proof (intro conjI impI allI)
  assume "list_all note_ok (long_memory s)"
  then show "\<exists>s'. compact_long_memory m s = Inr s'" by (rule compact_long_memory_returns)
next
  fix s' assume r: "compact_long_memory m s = Inr s'"
  show "list_all (\<lambda>r. \<not> blank_note r) (long_memory s')"
  proof (cases "long_memory s = []")
    case True
    with r show ?thesis by (simp add: compact_long_memory_def)
  next
    case False
    with r obtain out where l: "compact_loop m (rev (long_memory s)) {} [] = Inr out"
      and s': "long_memory s' = rev out"
      by (auto simp: compact_long_memory_def split: sum.splits)
    from compact_loop_nonblank [OF l] have "list_all (\<lambda>r. \<not> blank_note r) out" by simp
    then show ?thesis by (simp add: s' list_all_iff)
  qed
next
  assume b: "list_all blank_note (long_memory s)"
  then have "list_all blank_note (rev (long_memory s))" by (simp add: list_all_iff)
  from compact_loop_all_blank [OF this, of m "{}" "[]"]
  show "\<exists>s'. compact_long_memory m s = Inr s' \<and> long_memory s' = []"
    by (simp add: compact_long_memory_def)
qed

theorem compact_drops_blank_notes_witness:
  "list_all note_ok (long_memory (pin_note [CHR 0xA0] (pin_note ''  '' (pin_note [] (new_manager 5)))))
   \<and> list_all blank_note (long_memory (pin_note [CHR 0xA0] (pin_note ''  '' (pin_note [] (new_manager 5)))))
   \<and> (\<exists>s'. compact_long_memory 18 (pin_note [CHR 0xA0] (pin_note ''  '' (pin_note [] (new_manager 5)))) = Inr s'
         \<and> long_memory s' = [])"
proof -
  have a: "list_all note_ok (long_memory (pin_note [CHR 0xA0] (pin_note ''  '' (pin_note [] (new_manager 5)))))"
    by code_simp
  have b: "list_all blank_note (long_memory (pin_note [CHR 0xA0] (pin_note ''  '' (pin_note [] (new_manager 5)))))"
    by code_simp
  from compact_drops_blank_notes [of "pin_note [CHR 0xA0] (pin_note ''  '' (pin_note [] (new_manager 5)))" 18] a b
  show ?thesis by blast
qed

text \<open>
  C8, as amended. In Lightweight mode, for \<open>k \<ge> 0\<close>, \<open>recall_relevant\<close> renders the first
  \<open>k\<close> records of a ranking of the pool (the records among the most recent 200 whose note is
  not blank). The ranking is a rearrangement of the pool, sorted by descending key: the
  priority coerced to an integer (default 1), plus 1 if a non-empty focus token occurs in the
  note, plus 1 if a whitespace-split token of the cue occurs in the note, both
  case-insensitively; ties are broken by the higher turn, and records with equal keys stay in
  store order. The result depends on the state only through the long-term store, so equal
  pool, cue and focus give the same ordering; the call returns whenever every stored note is a
  string, \<open>None\<close> or absent.
\<close>
theorem recall_relevant_lightweight_ranking:
  assumes "\<not> use_semantic_rag s" and "0 \<le> k"
  shows "(list_all note_ok (long_memory s) \<longrightarrow>
            (\<exists>out. recall_relevant rt k cue npc_focus s = Inr out))
     \<and> (\<forall>out. recall_relevant rt k cue npc_focus s = Inr out \<longrightarrow>
          (\<exists>ranked.
             out = render_notes (map (\<lambda>r. ''- '' @ note_text r) (take (nat k) ranked))
             \<and> mset ranked = mset (recall_pool s)
             \<and> sorted_wrt (\<lambda>a b. outranks
                   (rank_key rt cue (case npc_focus of None \<Rightarrow> [] | Some ws \<Rightarrow> ws) a)
                   (rank_key rt cue (case npc_focus of None \<Rightarrow> [] | Some ws \<Rightarrow> ws) b)) ranked
             \<and> (\<forall>c. filter (\<lambda>r. rank_key rt cue
                         (case npc_focus of None \<Rightarrow> [] | Some ws \<Rightarrow> ws) r = c) ranked
                     = filter (\<lambda>r. rank_key rt cue
                         (case npc_focus of None \<Rightarrow> [] | Some ws \<Rightarrow> ws) r = c) (recall_pool s))))
     \<and> (\<forall>s'. \<not> use_semantic_rag s' \<and> long_memory s' = long_memory s \<longrightarrow>
           recall_relevant rt k cue npc_focus s' = recall_relevant rt k cue npc_focus s)"
proof (intro conjI impI allI)
  assume "list_all note_ok (long_memory s)"
  then have "list_all note_ok (slice_from (- 200) (long_memory s))"
    by (auto simp: slice_from_def list_all_iff dest: in_set_dropD)
  from pool_filter_returns [OF this] obtain pool
    where "pool_filter (slice_from (- 200) (long_memory s)) = Inr pool" by blast
  from recall_relevant_eval [OF assms(1) this]
  show "\<exists>out. recall_relevant rt k cue npc_focus s = Inr out" by blast
next
  fix out assume r: "recall_relevant rt k cue npc_focus s = Inr out"
  let ?key = "rank_key rt cue (case npc_focus of None \<Rightarrow> [] | Some ws \<Rightarrow> ws)"
  from r recall_relevant_raises [OF assms(1)] obtain pool
    where pf: "pool_filter (slice_from (- 200) (long_memory s)) = Inr pool"
    by (cases "pool_filter (slice_from (- 200) (long_memory s))") auto
  from pool_filter_result [OF pf] have pool: "pool = recall_pool s"
    by (simp add: recall_pool_def slice_from_def)
  let ?ranked = "sorted_reverse (map ?key pool) pool"
  from recall_relevant_eval [OF assms(1) pf, of rt k cue npc_focus] r assms(2)
  have "out = render_notes (map (\<lambda>r. ''- '' @ note_text r) (take (nat k) ?ranked))"
    by (simp add: slice_to_def)
  moreover have "mset ?ranked = mset (recall_pool s)"
    using sorted_reverse_mset [of ?key pool] by (simp add: pool)
  moreover have "sorted_wrt (\<lambda>a b. outranks (?key a) (?key b)) ?ranked"
    by (rule sorted_reverse_sorted)
  moreover have "\<forall>c. filter (\<lambda>r. ?key r = c) ?ranked = filter (\<lambda>r. ?key r = c) (recall_pool s)"
    using sorted_reverse_stable [of ?key _ pool] by (simp add: pool)
  ultimately show "\<exists>ranked.
             out = render_notes (map (\<lambda>r. ''- '' @ note_text r) (take (nat k) ranked))
             \<and> mset ranked = mset (recall_pool s)
             \<and> sorted_wrt (\<lambda>a b. outranks (?key a) (?key b)) ranked
             \<and> (\<forall>c. filter (\<lambda>r. ?key r = c) ranked = filter (\<lambda>r. ?key r = c) (recall_pool s))"
    by blast
next
  fix s' :: memory_manager
  assume "\<not> use_semantic_rag s' \<and> long_memory s' = long_memory s"
  with assms(1) show "recall_relevant rt k cue npc_focus s' = recall_relevant rt k cue npc_focus s"
    by (simp add: recall_relevant_def)
qed

theorem recall_relevant_lightweight_ranking_witness:
  "\<not> use_semantic_rag example_store \<and> list_all note_ok (long_memory example_store)
   \<and> recall_relevant example_runtime 3 ''where is MIRA'' (Some [''Lantern'']) example_store
       = Inr (''Relevant notes:'' @ NL @ ''- The lantern is cursed'' @ NL
           @ ''- Mira the smith joins you'' @ NL @ ''- A locked gate'')
   \<and> rank_key example_runtime ''where is MIRA'' [''Lantern'']
         [(''note'', JStr ''Mira the smith joins you''), (''tags'', JList []),
          (''priority'', JStr ''3''), (''turn'', JInt 2)] = (4, 2)
   \<and> rank_key example_runtime ''where is MIRA'' [''Lantern''] gate_record = (4, 1)
   \<and> (\<exists>ranked.
         ''Relevant notes:'' @ NL @ ''- The lantern is cursed'' @ NL
           @ ''- Mira the smith joins you'' @ NL @ ''- A locked gate''
         = render_notes (map (\<lambda>r. ''- '' @ note_text r) (take 3 ranked))
       \<and> mset ranked = mset (recall_pool example_store)
       \<and> sorted_wrt (\<lambda>a b. outranks
             (rank_key example_runtime ''where is MIRA'' [''Lantern''] a)
             (rank_key example_runtime ''where is MIRA'' [''Lantern''] b)) ranked)"
proof -
  have a: "\<not> use_semantic_rag example_store" by code_simp
  have b: "(0::int) \<le> 3" by simp
  have c: "list_all note_ok (long_memory example_store)" by code_simp
  have n: "nat 3 = 3" by simp
  from recall_relevant_lightweight_ranking
    [OF a b, of example_runtime "''where is MIRA''" "Some [''Lantern'']"]
  have "\<forall>out. recall_relevant example_runtime 3 ''where is MIRA'' (Some [''Lantern''])
            example_store = Inr out \<longrightarrow>
          (\<exists>ranked.
             out = render_notes (map (\<lambda>r. ''- '' @ note_text r) (take 3 ranked))
             \<and> mset ranked = mset (recall_pool example_store)
             \<and> sorted_wrt (\<lambda>a b. outranks
                   (rank_key example_runtime ''where is MIRA'' [''Lantern''] a)
                   (rank_key example_runtime ''where is MIRA'' [''Lantern''] b)) ranked
             \<and> (\<forall>c. filter (\<lambda>r. rank_key example_runtime ''where is MIRA''
                         [''Lantern''] r = c) ranked
                     = filter (\<lambda>r. rank_key example_runtime ''where is MIRA''
                         [''Lantern''] r = c) (recall_pool example_store)))"
    unfolding option.case n by (rule conjunct1 [OF conjunct2])
  from this [rule_format, OF example_recall] a c example_recall example_keys(1,2)
  show ?thesis by blast
qed

text \<open>
  C8 as stated fails on the focus part of the key. With the focus list \<open>["", "Mira"]\<close> the
  empty token occurs in every note, so by the claim's key the gate note scores 4 + 1 and the
  Mira note 3 + 1; the code skips the empty token, both notes score 4, and the higher turn
  puts the Mira note first.
\<close>
theorem recall_relevant_empty_focus_counterexample:
  "recall_relevant example_runtime 2 ''look'' (Some [[], ''Mira'']) focus_store
     = Inr (''Relevant notes:'' @ NL @ ''- Mira waits'' @ NL @ ''- A locked gate'')
   \<and> stated_key example_runtime ''look'' [[], ''Mira''] mira_record = (4, 5)
   \<and> stated_key example_runtime ''look'' [[], ''Mira''] gate_record = (5, 1)
   \<and> \<not> outranks (stated_key example_runtime ''look'' [[], ''Mira''] mira_record)
           (stated_key example_runtime ''look'' [[], ''Mira''] gate_record)"
  using focus_store_recall focus_store_keys by (simp add: outranks_def)

end
